theory Spec2Isabelle
  imports Main "HOL-Library.Char_ord" "HOL-Library.List_Lexorder" "HOL-Library.AList"
begin

section \<open>Scope-wide metadata of cdk8s (packages/cdk8s/lib/metadata.ts)\<close>

text \<open>
  The class \<^verbatim>\<open>Metadata\<close> stores label and namespace overrides as a child construct
  of the scope they apply to, and resolves the effective labels and namespace of a scope by
  walking the parent links of the construct tree. The embedding keeps the objects of the
  program in an explicit store: a construct is a reference into a list of nodes, a method
  that mutates an object returns the updated store, and the static methods thread the store
  through the calls they make.
\<close>

subsection \<open>JavaScript objects with string keys\<close>

text \<open>
  An object such as \<^verbatim>\<open>Record<string, string | undefined>\<close> is the list of its own
  properties in the order in which \<^verbatim>\<open>Object.keys\<close>, \<^verbatim>\<open>Object.entries\<close> and the
  spread syntax enumerate them. ECMAScript enumerates the keys that are array indices first,
  in ascending numeric order, and the other string keys after them in the order of their
  creation; a key that exists keeps its place when its value changes.
\<close>

type_synonym 'v js_object = "(string \<times> 'v) list"

definition is_digit :: "char \<Rightarrow> bool" where
  "is_digit c = (c \<in> set ''0123456789'')"

definition digit_val :: "char \<Rightarrow> int" where
  "digit_val c = of_char c - 48"

text \<open>
  A key is an array index when it is the canonical decimal numeral (no sign, no leading
  zero) of an integer from 0 to \<open>2\<^sup>3\<^sup>2 - 2\<close>.
\<close>

definition array_index :: "string \<Rightarrow> int option" where
  "array_index s =
     (if s = [] then None
      else if list_ex (\<lambda>c. \<not> is_digit c) s then None
      else if hd s = CHR ''0'' \<and> 1 < length s then None
      else (let n = foldl (\<lambda>a c. 10 * a + digit_val c) 0 s
            in if n < 4294967295 then Some n else None))"

text \<open>A new array-index key goes before the first key that is not a smaller array index.\<close>

fun insert_index :: "int \<Rightarrow> string \<Rightarrow> 'v \<Rightarrow> 'v js_object \<Rightarrow> 'v js_object" where
  "insert_index n k v [] = [(k, v)]"
| "insert_index n k v (p # ps) =
     (case array_index (fst p) of
        None \<Rightarrow> (k, v) # p # ps
      | Some n' \<Rightarrow> if n' < n then p # insert_index n k v ps else (k, v) # p # ps)"

text \<open>
  Setting the own property \<open>k\<close> to \<open>v\<close>: the property is defined, or it receives the
  value where it exists. The spread syntax does this for every property it copies, and
  the assignment \<^verbatim>\<open>obj[k] = v\<close> does it for every key but \<^verbatim>\<open>__proto__\<close>.
\<close>

definition js_set :: "string \<Rightarrow> 'v \<Rightarrow> 'v js_object \<Rightarrow> 'v js_object" where
  "js_set k v obj =
     (if k \<in> set (map fst obj) then AList.update k v obj
      else (case array_index k of
              None \<Rightarrow> obj @ [(k, v)]
            | Some n \<Rightarrow> insert_index n k v obj))"

text \<open>
  The assignment \<^verbatim>\<open>obj[k] = v\<close> of a string or of \<^verbatim>\<open>undefined\<close> to a property of
  a plain object. The key \<^verbatim>\<open>__proto__\<close> is an accessor property of
  \<^verbatim>\<open>Object.prototype\<close>: unless the object has an own property of that name, the
  assignment runs the setter of the prototype, which ignores a value that is neither an
  object nor \<^verbatim>\<open>null\<close>, and nothing is stored. Every other key is set.
\<close>

definition js_assign :: "string \<Rightarrow> 'v \<Rightarrow> 'v js_object \<Rightarrow> 'v js_object" where
  "js_assign k v obj =
     (if k = ''__proto__'' \<and> k \<notin> set (map fst obj) then obj else js_set k v obj)"

definition Object_keys :: "'v js_object \<Rightarrow> string list" where
  "Object_keys obj = map fst obj"

definition Object_entries :: "'v js_object \<Rightarrow> (string \<times> 'v) list" where
  "Object_entries obj = obj"

text \<open>
  Reading \<^verbatim>\<open>obj[k]\<close> from an object whose values are strings or \<^verbatim>\<open>undefined\<close>:
  a missing key reads as \<^verbatim>\<open>undefined\<close>.
\<close>

definition js_get :: "string option js_object \<Rightarrow> string \<Rightarrow> string option" where
  "js_get obj k = (case map_of obj k of None \<Rightarrow> None | Some v \<Rightarrow> v)"

text \<open>
  The spread \<^verbatim>\<open>...src\<close> inside an object literal copies the properties of
  \<^verbatim>\<open>src\<close> onto the object under construction, in enumeration order; spreading
  \<^verbatim>\<open>undefined\<close> copies nothing.
\<close>

definition spread :: "'v js_object \<Rightarrow> 'v js_object \<Rightarrow> 'v js_object" where
  "spread target src = foldl (\<lambda>obj (k, v). js_set k v obj) target src"

definition spread_opt :: "'v js_object \<Rightarrow> 'v js_object option \<Rightarrow> 'v js_object" where
  "spread_opt target src = (case src of None \<Rightarrow> target | Some s \<Rightarrow> spread target s)"

subsection \<open>The construct tree\<close>

type_synonym ref = nat

type_synonym Labels = "string option js_object"

text \<open>
  A node of the tree. \<open>scope\<close> is \<^verbatim>\<open>Node.of(c).scope\<close>, the parent (none for a root),
  and \<open>children\<close> are the children with their ids. \<open>labels\<close> and \<open>namespace\<close> are the
  private fields of \<^verbatim>\<open>Metadata\<close>; both are optional, and a construct that is not a
  \<^verbatim>\<open>Metadata\<close> has neither, so that reading them gives \<^verbatim>\<open>undefined\<close>.
\<close>

record construct =
  scope :: "ref option"
  children :: "(string \<times> ref) list"
  labels :: "Labels option"
  namespace :: "string option"

type_synonym tree = "construct list"

text \<open>The id of the Metadata construct added to scopes in which metadata is defined.\<close>

definition id_cdk8s :: string where
  "id_cdk8s = ''$cdk8s.Metadata''"

text \<open>
  Modelled from the spec: the scope tree is the external collaborator (the constructs
  library), of which the repository uses the parent lookup, the child lookup by identifier
  and the attachment of a new child; its code is not part of the repository.
  \<open>tryFindChild\<close> is the child lookup by identifier.
\<close>

definition tryFindChild :: "tree \<Rightarrow> ref \<Rightarrow> string \<Rightarrow> ref option" where
  "tryFindChild t r i = map_of (children (t ! r)) i"

text \<open>
  Modelled from the spec: the constructor of a construct, which attaches the new node to
  its scope under the given identifier. The new object is a fresh reference, and its
  \<^verbatim>\<open>Metadata\<close> fields start undefined. The constructor of \<^verbatim>\<open>Metadata\<close>
  only calls it (\<^verbatim>\<open>super(scope, id)\<close>).
\<close>

definition new_Construct :: "ref \<Rightarrow> string \<Rightarrow> tree \<Rightarrow> ref \<times> tree" where
  "new_Construct sc i t =
     (length t,
      t[sc := (t ! sc)\<lparr>children := children (t ! sc) @ [(i, length t)]\<rparr>]
        @ [\<lparr>scope = Some sc, children = [], labels = None, namespace = None\<rparr>])"

subsection \<open>The static methods of Metadata\<close>

definition tryGetMetadata :: "ref \<Rightarrow> tree \<Rightarrow> ref option \<times> tree" where
  "tryGetMetadata sc t = (tryFindChild t sc id_cdk8s, t)"

definition Metadata_of :: "ref \<Rightarrow> tree \<Rightarrow> ref \<times> tree" where
  "Metadata_of sc t =
     (case tryGetMetadata sc t of
        (Some m, t1) \<Rightarrow> (m, t1)
      | (None, t1) \<Rightarrow> new_Construct sc id_cdk8s t1)"

text \<open>
  The walks along the parent links return nothing (\<open>None\<close>) when they do not end, which
  is what happens on a cyclic structure.
\<close>

partial_function (option) lookupMetadata ::
  "ref option \<Rightarrow> tree \<Rightarrow> (ref option \<times> tree) option" where
  "lookupMetadata sc t =
     (case sc of
        None \<Rightarrow> Some (None, t)
      | Some r \<Rightarrow>
          (case tryGetMetadata r t of
             (Some m, t1) \<Rightarrow> Some (Some m, t1)
           | (None, t1) \<Rightarrow> lookupMetadata (scope (t1 ! r)) t1))"

declare lookupMetadata.simps [code]

partial_function (option) resolveNamespace ::
  "ref option \<Rightarrow> tree \<Rightarrow> (string option \<times> tree) option" where
  "resolveNamespace sc t =
     (case sc of
        None \<Rightarrow> Some (None, t)
      | Some r \<Rightarrow>
          Option.bind (lookupMetadata (Some r) t) (\<lambda>(md, t1).
          Option.bind
            (case (case md of None \<Rightarrow> None | Some m \<Rightarrow> namespace (t1 ! m)) of
               Some v \<Rightarrow> Some (Some v, t1)
             | None \<Rightarrow> resolveNamespace (scope (t1 ! r)) t1) (\<lambda>(resolved, t2).
          Some (if resolved \<noteq> Some '''' then resolved else None, t2))))"

declare resolveNamespace.simps [code]

text \<open>
  \<open>filterUndefined\<close> assigns the entries that hold a string to a fresh object. The
  objects that \<open>resolveLabels\<close> hands to it are spreads of a resolved mapping and of
  stored labels, which the assignments of \<open>filterUndefined\<close> and of \<open>sortByKey\<close> have
  built and which therefore do not have the key \<^verbatim>\<open>__proto__\<close>
  (\<open>addLabels_never_stores_proto\<close>, \<open>resolveLabels_no_proto\<close>); for every other key the
  assignment sets the property (\<open>js_assign_plain\<close>, \<open>filterUndefined_assign\<close>).
\<close>

definition filterUndefined :: "Labels \<Rightarrow> string js_object" where
  "filterUndefined obj =
     foldl (\<lambda>result (n, v). case v of None \<Rightarrow> result | Some s \<Rightarrow> js_set n s result)
       [] (Object_entries obj)"

text \<open>
  A resolved mapping, of type \<^verbatim>\<open>Record<string, string>\<close>, read as an object of type
  \<^verbatim>\<open>Labels\<close> when it is spread into the object literal.
\<close>

definition as_Labels :: "string js_object \<Rightarrow> Labels" where
  "as_Labels obj = map (\<lambda>(k, v). (k, Some v)) obj"

partial_function (option) resolveLabels ::
  "ref option \<Rightarrow> tree \<Rightarrow> (string js_object \<times> tree) option" where
  "resolveLabels sc t =
     (case sc of
        None \<Rightarrow> Some ([], t)
      | Some r \<Rightarrow>
          Option.bind (resolveLabels (scope (t ! r)) t) (\<lambda>(inherited, t1).
          Option.bind (lookupMetadata (Some r) t1) (\<lambda>(md, t2).
          Some (filterUndefined
                  (spread_opt (spread [] (as_Labels inherited))
                     (case md of None \<Rightarrow> None | Some m \<Rightarrow> labels (t2 ! m))),
                t2))))"

declare resolveLabels.simps [code]

subsection \<open>The methods of a Metadata object\<close>

definition sortByKey :: "Labels \<Rightarrow> Labels" where
  "sortByKey obj =
     foldl (\<lambda>result key. js_assign key (js_get obj key) result) [] (sort (Object_keys obj))"

definition addLabels :: "ref \<Rightarrow> Labels \<Rightarrow> tree \<Rightarrow> tree" where
  "addLabels m ls t =
     t[m := (t ! m)\<lparr>labels := Some (sortByKey (spread (spread_opt [] (labels (t ! m))) ls))\<rparr>]"

definition removeLabel :: "ref \<Rightarrow> string \<Rightarrow> tree \<Rightarrow> tree" where
  "removeLabel m label t = addLabels m [(label, None)] t"

definition addNamespace :: "ref \<Rightarrow> string option \<Rightarrow> tree \<Rightarrow> tree" where
  "addNamespace m v t =
     t[m := (t ! m)\<lparr>namespace := Some (case v of None \<Rightarrow> '''' | Some s \<Rightarrow> s)\<rparr>]"

definition removeNamespace :: "ref \<Rightarrow> tree \<Rightarrow> tree" where
  "removeNamespace m t = addNamespace m None t"

subsection \<open>Specification-side notions\<close>

text \<open>
  The stores that are finite trees: the parent of a node is a node created before it, so
  that no walk along the parent links comes back to where it was, and the children of a
  node are nodes of the store whose scope is that node. Every store that the constructors
  build is of this kind, since a construct receives its scope when it is created and keeps
  it, and every finite tree is one up to the numbering of its nodes.
\<close>

definition wf_tree :: "tree \<Rightarrow> bool" where
  "wf_tree t =
     (\<forall>r \<in> set [0..<length t].
        (case scope (t ! r) of None \<Rightarrow> True | Some p \<Rightarrow> p < r) \<and>
        (\<forall>(i, c) \<in> set (children (t ! r)). c < length t \<and> scope (t ! c) = Some r))"

text \<open>
  The scope and its ancestors, nearest first: the parent links followed from the scope, at
  most as many times as the store has nodes.
\<close>

fun chain :: "nat \<Rightarrow> tree \<Rightarrow> ref \<Rightarrow> ref list" where
  "chain 0 t r = [r]"
| "chain (Suc n) t r = r # (case scope (t ! r) of None \<Rightarrow> [] | Some p \<Rightarrow> chain n t p)"

definition ancestors_or_self :: "tree \<Rightarrow> ref \<Rightarrow> ref list" where
  "ancestors_or_self t r = chain (length t) t r"

text \<open>
  The record attached directly to a scope, and the first one met from a scope towards the
  root.
\<close>

definition attached_record :: "tree \<Rightarrow> ref \<Rightarrow> ref option" where
  "attached_record t s = tryFindChild t s id_cdk8s"

definition nearest_record :: "tree \<Rightarrow> ref \<Rightarrow> ref option" where
  "nearest_record t r =
     (case find (\<lambda>s. attached_record t s \<noteq> None) (ancestors_or_self t r) of
        None \<Rightarrow> None
      | Some s \<Rightarrow> attached_record t s)"

text \<open>
  The namespace override of a scope: unset (\<open>None\<close>) when the scope has no record or
  its record never stored a namespace, the stored string otherwise, where the empty string
  stands for the removed namespace. The resolved namespace by the words of the
  specification: the override of the first scope, from the scope towards the root, whose
  override is not unset; absent when that is the empty string, and absent when there is
  no such scope.
\<close>

definition namespace_override :: "tree \<Rightarrow> ref \<Rightarrow> string option" where
  "namespace_override t s =
     (case attached_record t s of None \<Rightarrow> None | Some m \<Rightarrow> namespace (t ! m))"

definition nearest_decision :: "tree \<Rightarrow> ref \<Rightarrow> string option" where
  "nearest_decision t r =
     (case find (\<lambda>s. namespace_override t s \<noteq> None) (ancestors_or_self t r) of
        None \<Rightarrow> None
      | Some s \<Rightarrow> namespace_override t s)"

definition spec_resolve_namespace :: "tree \<Rightarrow> ref \<Rightarrow> string option" where
  "spec_resolve_namespace t r =
     (case nearest_decision t r of
        None \<Rightarrow> None
      | Some v \<Rightarrow> if v = '''' then None else Some v)"

text \<open>The last line of \<open>resolveNamespace\<close>, as a function of its own.\<close>

definition hide_empty :: "string option \<Rightarrow> string option" where
  "hide_empty x = (if x \<noteq> Some '''' then x else None)"

text \<open>
  The \<open>labelOverrides\<close> of a record: a record with no labels set behaves as the empty
  mapping. \<open>own_overrides\<close> are those of the record attached directly to a scope.
\<close>

definition labelOverrides :: "tree \<Rightarrow> ref \<Rightarrow> Labels" where
  "labelOverrides t m = (case labels (t ! m) of None \<Rightarrow> [] | Some ls \<Rightarrow> ls)"

definition own_overrides :: "tree \<Rightarrow> ref \<Rightarrow> Labels" where
  "own_overrides t s =
     (case attached_record t s of None \<Rightarrow> [] | Some m \<Rightarrow> labelOverrides t m)"

text \<open>
  Overlaying overrides on an inherited mapping, entry by entry: a string value replaces
  the inherited entry of that key, the unset marker deletes it.
\<close>

definition overlay :: "(string \<rightharpoonup> string) \<Rightarrow> Labels \<Rightarrow> (string \<rightharpoonup> string)" where
  "overlay inherited overrides = foldl (\<lambda>m (k, v). m(k := v)) inherited overrides"

text \<open>What \<open>filterUndefined\<close> does to an object, on its mapping.\<close>

definition flatten :: "(string \<rightharpoonup> string option) \<Rightarrow> (string \<rightharpoonup> string)" where
  "flatten M = (\<lambda>k. case M k of Some (Some s) \<Rightarrow> Some s | _ \<Rightarrow> None)"

text \<open>
  What \<open>sortByKey\<close> does to an object, on its mapping: its assignments keep every entry
  but one of the key \<^verbatim>\<open>__proto__\<close>.
\<close>

definition without_proto :: "(string \<rightharpoonup> 'v) \<Rightarrow> (string \<rightharpoonup> 'v)" where
  "without_proto M = M(''__proto__'' := None)"

definition nearest_overrides :: "tree \<Rightarrow> ref \<Rightarrow> Labels" where
  "nearest_overrides t r =
     (case nearest_record t r of None \<Rightarrow> [] | Some m \<Rightarrow> labelOverrides t m)"

text \<open>
  The variant of \<open>resolveLabels\<close> that overlays only the record attached directly to
  the scope (\<open>tryGetMetadata\<close> in the place of \<open>lookupMetadata\<close>).
\<close>

partial_function (option) resolveLabels_direct ::
  "ref option \<Rightarrow> tree \<Rightarrow> (string js_object \<times> tree) option" where
  "resolveLabels_direct sc t =
     (case sc of
        None \<Rightarrow> Some ([], t)
      | Some r \<Rightarrow>
          Option.bind (resolveLabels_direct (scope (t ! r)) t) (\<lambda>(inherited, t1).
          (case tryGetMetadata r t1 of (md, t2) \<Rightarrow>
          Some (filterUndefined
                  (spread_opt (spread [] (as_Labels inherited))
                     (case md of None \<Rightarrow> None | Some m \<Rightarrow> labels (t2 ! m))),
                t2))))"

declare resolveLabels_direct.simps [code]

subsection \<open>Example trees\<close>

text \<open>
  The tree of the test \<^verbatim>\<open>"undefined" removes the namespace from the scope\<close>: a root
  (0), its child \<^verbatim>\<open>parent\<close> (1) and the grandchild \<^verbatim>\<open>child\<close> (2); the record of
  the root (3) holds the namespace \<^verbatim>\<open>root\<close> and the record of \<^verbatim>\<open>parent\<close> (4)
  holds the removed namespace.
\<close>

definition tree_namespaces :: tree where
  "tree_namespaces =
     [\<lparr>scope = None, children = [(''parent'', 1), (id_cdk8s, 3)], labels = None,
        namespace = None\<rparr>,
      \<lparr>scope = Some 0, children = [(''child'', 2), (id_cdk8s, 4)], labels = None,
        namespace = None\<rparr>,
      \<lparr>scope = Some 1, children = [], labels = None, namespace = None\<rparr>,
      \<lparr>scope = Some 0, children = [], labels = None, namespace = Some ''root''\<rparr>,
      \<lparr>scope = Some 1, children = [], labels = None, namespace = Some ''''\<rparr>]"

text \<open>
  The same constructs, where the record of the root holds the label \<^verbatim>\<open>k: 'v'\<close> and
  the record of \<^verbatim>\<open>parent\<close> is attached but holds nothing yet.
\<close>

definition tree_labels :: tree where
  "tree_labels =
     [\<lparr>scope = None, children = [(''parent'', 1), (id_cdk8s, 3)], labels = None,
        namespace = None\<rparr>,
      \<lparr>scope = Some 0, children = [(''child'', 2), (id_cdk8s, 4)], labels = None,
        namespace = None\<rparr>,
      \<lparr>scope = Some 1, children = [], labels = None, namespace = None\<rparr>,
      \<lparr>scope = Some 0, children = [], labels = Some [(''k'', Some ''v'')],
        namespace = None\<rparr>,
      \<lparr>scope = Some 1, children = [], labels = None, namespace = None\<rparr>]"

text \<open>A root (0) with its record (1), which holds nothing yet.\<close>

definition tree_root :: tree where
  "tree_root =
     [\<lparr>scope = None, children = [(id_cdk8s, 1)], labels = None, namespace = None\<rparr>,
      \<lparr>scope = Some 0, children = [], labels = None, namespace = None\<rparr>]"

text \<open>
  The tree of the test \<^verbatim>\<open>Metadata is not added when only reading\<close>: a root (0) and
  its child (1), with no record anywhere.
\<close>

definition tree_bare :: tree where
  "tree_bare =
     [\<lparr>scope = None, children = [(''child'', 1)], labels = None, namespace = None\<rparr>,
      \<lparr>scope = Some 0, children = [], labels = None, namespace = None\<rparr>]"

section \<open>Properties of the embedding\<close>

subsection \<open>JavaScript objects\<close>

lemma keys_insert_index: "fst ` set (insert_index n k v obj) = insert k (fst ` set obj)"
  by (induction obj) (auto split: option.splits)

lemma map_of_insert_index:
  "k \<notin> fst ` set obj \<Longrightarrow> map_of (insert_index n k v obj) = (map_of obj)(k \<mapsto> v)"
  by (induction obj) (auto split: option.splits simp: fun_upd_twist)

lemma distinct_insert_index:
  "k \<notin> fst ` set obj \<Longrightarrow> distinct (map fst obj) \<Longrightarrow> distinct (map fst (insert_index n k v obj))"
  by (induction obj) (auto split: option.splits simp: keys_insert_index)

lemma map_of_snoc:
  "k \<notin> fst ` set obj \<Longrightarrow> map_of (obj @ [(k, v)]) = (map_of obj)(k \<mapsto> v)"
  by (induction obj) (auto simp: fun_upd_twist)

lemma map_of_js_set: "map_of (js_set k v obj) = (map_of obj)(k \<mapsto> v)"
  by (simp add: js_set_def update_conv' map_of_insert_index map_of_snoc del: map_of_append split: option.splits)

lemma distinct_js_set: "distinct (map fst obj) \<Longrightarrow> distinct (map fst (js_set k v obj))"
  by (auto simp: js_set_def distinct_update distinct_insert_index split: option.splits)

lemma keys_js_set: "fst ` set (js_set k v obj) = insert k (fst ` set obj)"
proof -
  have "dom (map_of (js_set k v obj)) = insert k (dom (map_of obj))"
    by (simp add: map_of_js_set)
  then show ?thesis by (simp add: dom_map_of_conv_image_fst)
qed

lemma map_of_spread:
  "map_of (spread target src) = map_of target ++ map_of (rev src)"
proof (induction src arbitrary: target)
  case Nil
  then show ?case by (simp add: spread_def)
next
  case (Cons p src)
  obtain k v where p: "p = (k, v)" by (cases p)
  have "spread target (p # src) = spread (js_set k v target) src"
    by (simp add: spread_def p)
  then show ?case
    by (auto simp: Cons.IH map_of_js_set p map_add_def fun_eq_iff split: option.splits)
qed

lemma distinct_spread: "distinct (map fst target) \<Longrightarrow> distinct (map fst (spread target src))"
  unfolding spread_def
  by (induction src arbitrary: target) (auto simp: distinct_js_set)

lemma keys_spread: "fst ` set (spread target src) = fst ` set target \<union> fst ` set src"
proof (induction src arbitrary: target)
  case Nil
  then show ?case by (simp add: spread_def)
next
  case (Cons p src)
  obtain k v where p: "p = (k, v)" by (cases p)
  have "spread target (p # src) = spread (js_set k v target) src"
    by (simp add: spread_def p)
  then show ?case by (simp add: Cons.IH keys_js_set p)
qed

lemma distinct_fold_filter:
  "distinct (map fst acc) \<Longrightarrow>
   distinct (map fst (foldl (\<lambda>result (n, v). case v of None \<Rightarrow> result | Some s \<Rightarrow> js_set n s result) acc obj))"
  by (induction obj arbitrary: acc) (auto simp: distinct_js_set split: option.splits)

lemma distinct_filterUndefined: "distinct (map fst (filterUndefined obj))"
  unfolding filterUndefined_def Object_entries_def by (rule distinct_fold_filter) simp

lemma map_of_fold_filter:
  "distinct (map fst obj) \<Longrightarrow>
   map_of (foldl (\<lambda>result (n, v). case v of None \<Rightarrow> result | Some s \<Rightarrow> js_set n s result) acc obj) k =
     (case map_of obj k of Some (Some s) \<Rightarrow> Some s | _ \<Rightarrow> map_of acc k)"
proof (induction obj arbitrary: acc)
  case Nil
  then show ?case by simp
next
  case (Cons p obj)
  obtain k0 v0 where p: "p = (k0, v0)" by (cases p)
  from Cons.prems p have notin: "map_of obj k0 = None" and d: "distinct (map fst obj)"
    by (auto simp: map_of_eq_None_iff)
  show ?case
    using Cons.IH[OF d] notin p
    by (cases v0) (auto simp: map_of_js_set split: option.splits)
qed

lemma filterUndefined_assign:
  assumes "''__proto__'' \<notin> set (Object_keys obj)"
  shows "foldl (\<lambda>result (n, v). case v of None \<Rightarrow> result | Some s \<Rightarrow> js_assign n s result)
           [] (Object_entries obj) = filterUndefined obj"
  unfolding filterUndefined_def
proof (rule foldl_cong[OF refl refl])
  fix result x
  assume "x \<in> set (Object_entries obj)"
  with assms have "fst x \<noteq> ''__proto__''"
    by (force simp: Object_entries_def Object_keys_def)
  then show "(case x of (n, v) \<Rightarrow> case v of None \<Rightarrow> result | Some s \<Rightarrow> js_assign n s result)
      = (case x of (n, v) \<Rightarrow> case v of None \<Rightarrow> result | Some s \<Rightarrow> js_set n s result)"
    by (cases x) (simp add: js_assign_def split: option.splits)
qed

lemma map_of_rev_distinct: "distinct (map fst xs) \<Longrightarrow> map_of (rev xs) = map_of xs"
proof (induction xs)
  case Nil
  then show ?case by simp
next
  case (Cons p xs)
  obtain k v where p: "p = (k, v)" by (cases p)
  with Cons.prems have k: "map_of xs k = None" and d: "distinct (map fst xs)"
    by (auto simp: map_of_eq_None_iff)
  have "map_of (rev (p # xs)) = map_of [(k, v)] ++ map_of xs"
    by (simp add: p Cons.IH[OF d])
  also have "\<dots> = map_of (p # xs)"
    using k by (auto simp: p map_add_def fun_eq_iff split: option.splits)
  finally show ?case .
qed

lemma js_assign_plain: "k \<noteq> ''__proto__'' \<Longrightarrow> js_assign k v obj = js_set k v obj"
  by (simp add: js_assign_def)

lemma map_of_js_assign:
  "map_of obj ''__proto__'' = None \<Longrightarrow>
   map_of (js_assign k v obj) =
     (if k = ''__proto__'' then map_of obj else (map_of obj)(k \<mapsto> v))"
  by (simp add: js_assign_def map_of_js_set map_of_eq_None_iff)

lemma distinct_js_assign: "distinct (map fst obj) \<Longrightarrow> distinct (map fst (js_assign k v obj))"
  by (simp add: js_assign_def distinct_js_set)

lemma map_of_fold_sort:
  "map_of acc ''__proto__'' = None \<Longrightarrow>
   map_of (foldl (\<lambda>result key. js_assign key (f key) result) acc ks) =
     (\<lambda>k. if k \<in> set ks \<and> k \<noteq> ''__proto__'' then Some (f k) else map_of acc k)"
proof (induction ks arbitrary: acc)
  case Nil
  then show ?case by simp
next
  case (Cons k ks)
  have acc': "map_of (js_assign k (f k) acc) ''__proto__'' = None"
    using Cons.prems by (simp add: map_of_js_assign)
  from Cons.IH[OF acc'] Cons.prems show ?case
    by (auto simp: map_of_js_assign fun_eq_iff)
qed

lemma distinct_fold_sort:
  "distinct (map fst acc) \<Longrightarrow>
   distinct (map fst (foldl (\<lambda>result key. js_assign key (f key) result) acc ks))"
  by (induction ks arbitrary: acc) (auto simp: distinct_js_assign)

lemma without_proto_apply:
  "without_proto M k = (if k = ''__proto__'' then None else M k)"
  by (simp add: without_proto_def)

lemma map_of_sortByKey: "map_of (sortByKey obj) = without_proto (map_of obj)"
proof
  fix k
  show "map_of (sortByKey obj) k = without_proto (map_of obj) k"
  proof (cases "map_of obj k")
    case None
    then have "k \<notin> fst ` set obj" by (simp add: map_of_eq_None_iff)
    with None show ?thesis
      by (simp add: sortByKey_def Object_keys_def map_of_fold_sort without_proto_apply)
  next
    case (Some v)
    then have "k \<in> fst ` set obj" by (metis map_of_eq_None_iff option.distinct(1))
    with Some show ?thesis
      by (simp add: sortByKey_def Object_keys_def map_of_fold_sort js_get_def
          without_proto_apply)
  qed
qed

lemma proto_sortByKey: "''__proto__'' \<notin> set (Object_keys (sortByKey obj))"
proof -
  have "map_of (sortByKey obj) ''__proto__'' = None"
    by (simp add: map_of_sortByKey without_proto_apply)
  then show ?thesis by (simp add: map_of_eq_None_iff Object_keys_def)
qed

lemma distinct_sortByKey: "distinct (map fst (sortByKey obj))"
  unfolding sortByKey_def by (rule distinct_fold_sort) simp

lemma keys_fold_plain:
  "\<forall>k \<in> set ks. array_index k = None \<Longrightarrow> distinct (map fst acc @ ks) \<Longrightarrow>
   ''__proto__'' \<notin> set (map fst acc) \<Longrightarrow>
   map fst (foldl (\<lambda>result key. js_assign key (f key) result) acc ks) =
     map fst acc @ filter (\<lambda>k. k \<noteq> ''__proto__'') ks"
proof (induction ks arbitrary: acc)
  case Nil
  then show ?case by simp
next
  case (Cons k ks)
  from Cons.prems have new: "k \<notin> set (map fst acc)" and plain: "array_index k = None"
    and rest: "\<forall>k \<in> set ks. array_index k = None"
    by auto
  show ?case
  proof (cases "k = ''__proto__''")
    case True
    with new have step: "js_assign k (f k) acc = acc" by (simp add: js_assign_def)
    from Cons.prems have "distinct (map fst acc @ ks)" by auto
    from Cons.IH[OF rest this Cons.prems(3)] step True show ?thesis by simp
  next
    case False
    with new plain have step: "js_assign k (f k) acc = acc @ [(k, f k)]"
      by (simp add: js_assign_def js_set_def)
    from Cons.prems have d: "distinct (map fst (acc @ [(k, f k)]) @ ks)" by auto
    from False Cons.prems(3) have "''__proto__'' \<notin> set (map fst (acc @ [(k, f k)]))" by auto
    from Cons.IH[OF rest d this] step False show ?thesis by simp
  qed
qed

lemma keys_sortByKey_plain:
  assumes "\<forall>k \<in> set (Object_keys obj). array_index k = None" "distinct (Object_keys obj)"
  shows "Object_keys (sortByKey obj) = filter (\<lambda>k. k \<noteq> ''__proto__'') (sort (Object_keys obj))"
  using keys_fold_plain[of "sort (Object_keys obj)" "[]" "js_get obj"] assms
  by (simp add: sortByKey_def Object_keys_def)

subsection \<open>Ancestors and the nearest record\<close>

lemma wf_treeI:
  assumes "\<And>r p. r < length t \<Longrightarrow> scope (t ! r) = Some p \<Longrightarrow> p < r"
    and "\<And>r i c. r < length t \<Longrightarrow> (i, c) \<in> set (children (t ! r)) \<Longrightarrow>
           c < length t \<and> scope (t ! c) = Some r"
  shows "wf_tree t"
  unfolding wf_tree_def using assms by (auto split: option.splits)

lemma wf_parent: "wf_tree t \<Longrightarrow> r < length t \<Longrightarrow> scope (t ! r) = Some p \<Longrightarrow> p < r"
  by (auto simp: wf_tree_def split: option.splits)

lemma wf_child:
  "wf_tree t \<Longrightarrow> r < length t \<Longrightarrow> (i, c) \<in> set (children (t ! r)) \<Longrightarrow>
   c < length t \<and> scope (t ! c) = Some r"
  by (fastforce simp: wf_tree_def)

lemma chain_more_fuel:
  "wf_tree t \<Longrightarrow> r < length t \<Longrightarrow> r \<le> n \<Longrightarrow> chain (Suc n) t r = chain n t r"
proof (induction n arbitrary: r)
  case 0
  then have "scope (t ! r) = None"
    using wf_parent[of t r] by (cases "scope (t ! r)") auto
  with 0 show ?case by simp
next
  case (Suc n)
  show ?case
  proof (cases "scope (t ! r)")
    case None
    then show ?thesis by simp
  next
    case (Some p)
    with Suc.prems have "p < r" by (auto dest: wf_parent)
    with Suc.prems have "p < length t" "p \<le> n" by auto
    with Suc.IH[of p] Suc.prems(1) have "chain (Suc n) t p = chain n t p" by blast
    with Some show ?thesis by simp
  qed
qed

lemma ancestors_or_self_unfold:
  assumes "wf_tree t" "r < length t"
  shows "ancestors_or_self t r =
           r # (case scope (t ! r) of None \<Rightarrow> [] | Some p \<Rightarrow> ancestors_or_self t p)"
proof -
  from assms(2) obtain n where n: "length t = Suc n" by (cases "length t") auto
  show ?thesis
  proof (cases "scope (t ! r)")
    case None
    then show ?thesis by (simp add: ancestors_or_self_def n)
  next
    case (Some p)
    with assms have "p < r" by (auto dest: wf_parent)
    with assms(2) n have "p < length t" "p \<le> n" by auto
    with chain_more_fuel[OF assms(1), of p n] have "chain (Suc n) t p = chain n t p" by blast
    with Some show ?thesis by (simp add: ancestors_or_self_def n)
  qed
qed

lemma nearest_record_unfold:
  assumes "wf_tree t" "r < length t"
  shows "nearest_record t r =
           (case attached_record t r of
              Some m \<Rightarrow> Some m
            | None \<Rightarrow> (case scope (t ! r) of None \<Rightarrow> None | Some p \<Rightarrow> nearest_record t p))"
  by (simp add: nearest_record_def ancestors_or_self_unfold[OF assms] split: option.splits)

lemma nearest_decision_unfold:
  assumes "wf_tree t" "r < length t"
  shows "nearest_decision t r =
           (case namespace_override t r of
              Some v \<Rightarrow> Some v
            | None \<Rightarrow> (case scope (t ! r) of None \<Rightarrow> None | Some p \<Rightarrow> nearest_decision t p))"
  by (simp add: nearest_decision_def ancestors_or_self_unfold[OF assms] split: option.splits)

lemma attached_record_unique:
  assumes "wf_tree t" "s < length t" "s' < length t"
    and "attached_record t s = Some m" "attached_record t s' = Some m"
  shows "s' = s"
proof -
  from assms(4,5) have "(id_cdk8s, m) \<in> set (children (t ! s))"
    "(id_cdk8s, m) \<in> set (children (t ! s'))"
    by (auto simp: attached_record_def tryFindChild_def dest: map_of_SomeD)
  with assms(1-3) have "scope (t ! m) = Some s" "scope (t ! m) = Some s'"
    by (auto dest: wf_child)
  then show ?thesis by simp
qed

lemma attached_record_valid:
  assumes "wf_tree t" "s < length t" "attached_record t s = Some m"
  shows "m < length t"
proof -
  from assms(3) have "(id_cdk8s, m) \<in> set (children (t ! s))"
    by (auto simp: attached_record_def tryFindChild_def dest: map_of_SomeD)
  with assms(1,2) show ?thesis by (auto dest: wf_child)
qed

lemma lookupMetadata_None: "lookupMetadata None t = Some (None, t)"
  by (subst lookupMetadata.simps) simp

lemma lookupMetadata_Some:
  "lookupMetadata (Some r) t =
     (case attached_record t r of
        Some m \<Rightarrow> Some (Some m, t)
      | None \<Rightarrow> lookupMetadata (scope (t ! r)) t)"
  by (subst lookupMetadata.simps) (simp add: tryGetMetadata_def attached_record_def split: option.splits)

lemma lookupMetadata_nearest:
  "wf_tree t \<Longrightarrow> r < length t \<Longrightarrow> lookupMetadata (Some r) t = Some (nearest_record t r, t)"
proof (induction r rule: less_induct)
  case (less r)
  show ?case
  proof (cases "attached_record t r")
    case (Some m)
    then show ?thesis
      by (simp add: lookupMetadata_Some nearest_record_unfold[OF less.prems])
  next
    case None
    show ?thesis
    proof (cases "scope (t ! r)")
      case no_parent: None
      with None show ?thesis
        by (simp add: lookupMetadata_Some lookupMetadata_None nearest_record_unfold[OF less.prems])
    next
      case (Some p)
      with less.prems have "p < r" by (auto dest: wf_parent)
      with less have "lookupMetadata (Some p) t = Some (nearest_record t p, t)" by simp
      with None Some show ?thesis
        by (simp add: lookupMetadata_Some nearest_record_unfold[OF less.prems])
    qed
  qed
qed

subsection \<open>Overlaying label overrides\<close>

lemma flatten_upd: "flatten (M(k \<mapsto> v)) = (flatten M)(k := v)"
  by (auto simp: flatten_def split: option.splits)

lemma overlay_Nil: "overlay M [] = M"
  by (simp add: overlay_def)

lemma overlay_Cons: "overlay M ((k, v) # L) = overlay (M(k := v)) L"
  by (simp add: overlay_def)

lemma overlay_apply:
  "overlay M L k = (case map_of (rev L) k of None \<Rightarrow> M k | Some v \<Rightarrow> v)"
proof (induction L arbitrary: M)
  case Nil
  then show ?case by (simp add: overlay_Nil)
next
  case (Cons p L)
  obtain k0 v0 where p: "p = (k0, v0)" by (cases p)
  show ?case
    unfolding p overlay_Cons Cons.IH
    by (simp add: map_add_def split: option.splits)
qed

lemma overlay_idem: "overlay (overlay M L) L = overlay M L"
  by (rule ext) (simp add: overlay_apply split: option.splits)

lemma overlay_cong_map:
  "map_of (rev L') = map_of (rev L) \<Longrightarrow> overlay M L' = overlay M L"
  by (rule ext) (simp add: overlay_apply)


lemma flatten_map_add:
  "flatten (M ++ map_of (rev L)) = overlay (flatten M) L"
  by (rule ext) (simp add: overlay_apply flatten_def map_add_def split: option.splits)

lemma overlay_as_Labels:
  "distinct (map fst P) \<Longrightarrow> overlay M (as_Labels P) = M ++ map_of P"
proof (induction P arbitrary: M)
  case Nil
  then show ?case by (simp add: as_Labels_def overlay_Nil)
next
  case (Cons p P)
  obtain k v where p: "p = (k, v)" by (cases p)
  with Cons.prems have k: "map_of P k = None" and d: "distinct (map fst P)"
    by (auto simp: map_of_eq_None_iff)
  have eq: "M(k \<mapsto> v) ++ map_of P = M ++ map_of ((k, v) # P)"
    using k by (auto simp: map_add_def fun_eq_iff split: option.splits)
  have "overlay M (as_Labels (p # P)) = overlay (M(k \<mapsto> v)) (as_Labels P)"
    unfolding p by (simp add: as_Labels_def overlay_Cons)
  also have "\<dots> = M(k \<mapsto> v) ++ map_of P" by (rule Cons.IH[OF d])
  finally show ?case unfolding p eq .
qed

lemma map_of_filterUndefined:
  "distinct (map fst obj) \<Longrightarrow> map_of (filterUndefined obj) = flatten (map_of obj)"
  unfolding filterUndefined_def Object_entries_def flatten_def
  by (rule ext) (simp add: map_of_fold_filter split: option.splits)

lemma flatten_empty: "flatten Map.empty = Map.empty"
  by (simp add: flatten_def)

lemma map_of_resolved:
  assumes "distinct (map fst P)"
  shows "map_of (filterUndefined (spread_opt (spread [] (as_Labels P)) L)) =
           overlay (map_of P) (case L of None \<Rightarrow> [] | Some ls \<Rightarrow> ls)"
proof -
  have base: "flatten (map_of (spread [] (as_Labels P))) = map_of P"
    using overlay_as_Labels[OF assms, of Map.empty]
    by (simp add: map_of_spread flatten_map_add[of Map.empty, simplified] flatten_empty)
  have d: "distinct (map fst (spread_opt (spread [] (as_Labels P)) L))"
    by (cases L) (simp_all add: spread_opt_def distinct_spread)
  show ?thesis
  proof (cases L)
    case None
    with base d show ?thesis
      by (simp add: map_of_filterUndefined spread_opt_def overlay_Nil)
  next
    case (Some ls)
    with base d show ?thesis
      by (simp add: map_of_filterUndefined spread_opt_def map_of_spread[of _ ls] flatten_map_add)
  qed
qed

subsection \<open>Resolution on well-formed trees\<close>

lemma resolveNamespace_None: "resolveNamespace None t = Some (None, t)"
  by (subst resolveNamespace.simps) simp

lemma resolveNamespace_Some:
  assumes "wf_tree t" "r < length t"
  shows "resolveNamespace (Some r) t =
           Option.bind
             (case (case nearest_record t r of None \<Rightarrow> None | Some m \<Rightarrow> namespace (t ! m)) of
                Some v \<Rightarrow> Some (Some v, t)
              | None \<Rightarrow> resolveNamespace (scope (t ! r)) t)
             (\<lambda>(resolved, t2). Some (if resolved \<noteq> Some '''' then resolved else None, t2))"
  by (subst resolveNamespace.simps) (simp add: lookupMetadata_nearest[OF assms])

lemma nearest_record_decision:
  "wf_tree t \<Longrightarrow> r < length t \<Longrightarrow> nearest_record t r = Some m \<Longrightarrow>
   namespace (t ! m) = Some v \<Longrightarrow> nearest_decision t r = Some v"
proof (induction r rule: less_induct)
  case (less r)
  note unf = nearest_record_unfold[OF less.prems(1,2)] nearest_decision_unfold[OF less.prems(1,2)]
  show ?case
  proof (cases "attached_record t r")
    case (Some m')
    with less.prems unf show ?thesis by (simp add: namespace_override_def)
  next
    case None
    with less.prems unf obtain p where p: "scope (t ! r) = Some p" "nearest_record t p = Some m"
      by (auto split: option.splits)
    with less.prems have "p < r" by (auto dest: wf_parent)
    with less p have "nearest_decision t p = Some v" by simp
    with None p unf show ?thesis by (simp add: namespace_override_def)
  qed
qed

lemma nearest_record_unset:
  assumes "wf_tree t" "r < length t"
    and "(case nearest_record t r of None \<Rightarrow> None | Some m \<Rightarrow> namespace (t ! m)) = None"
  shows "namespace_override t r = None"
  using assms(3) nearest_record_unfold[OF assms(1,2)]
  by (auto simp: namespace_override_def split: option.splits)

lemma spec_resolve_namespace_hide:
  "spec_resolve_namespace t r = hide_empty (nearest_decision t r)"
  by (auto simp: spec_resolve_namespace_def hide_empty_def split: option.splits)

lemma resolveNamespace_spec:
  "wf_tree t \<Longrightarrow> r < length t \<Longrightarrow>
   resolveNamespace (Some r) t = Some (spec_resolve_namespace t r, t)"
proof (induction r rule: less_induct)
  case (less r)
  note rs = resolveNamespace_Some[OF less.prems]
  show ?case
  proof (cases "case nearest_record t r of None \<Rightarrow> None | Some m \<Rightarrow> namespace (t ! m)")
    case (Some v)
    then obtain m where "nearest_record t r = Some m" "namespace (t ! m) = Some v"
      by (auto split: option.splits)
    with less.prems have "nearest_decision t r = Some v" by (rule nearest_record_decision)
    with Some rs show ?thesis
      by (simp add: spec_resolve_namespace_hide hide_empty_def)
  next
    case None
    with less.prems have un: "namespace_override t r = None" by (rule nearest_record_unset)
    show ?thesis
    proof (cases "scope (t ! r)")
      case no_parent: None
      with None un rs show ?thesis
        by (simp add: resolveNamespace_None spec_resolve_namespace_hide hide_empty_def
            nearest_decision_unfold[OF less.prems])
    next
      case (Some p)
      with less.prems have "p < r" by (auto dest: wf_parent)
      with less have "resolveNamespace (Some p) t = Some (spec_resolve_namespace t p, t)"
        by simp
      with None un Some rs show ?thesis
        by (simp add: spec_resolve_namespace_hide hide_empty_def
            nearest_decision_unfold[OF less.prems])
    qed
  qed
qed

lemma resolveLabels_None: "resolveLabels None t = Some ([], t)"
  by (subst resolveLabels.simps) simp

lemma resolveLabels_Some:
  assumes "wf_tree t" "r < length t" "resolveLabels (scope (t ! r)) t = Some (inherited, t)"
  shows "resolveLabels (Some r) t =
           Some (filterUndefined
                   (spread_opt (spread [] (as_Labels inherited))
                      (case nearest_record t r of None \<Rightarrow> None | Some m \<Rightarrow> labels (t ! m))), t)"
  by (subst resolveLabels.simps) (simp add: assms(3) lookupMetadata_nearest[OF assms(1,2)])

lemma nearest_overrides_unfold:
  assumes "wf_tree t" "r < length t"
  shows "nearest_overrides t r =
           (case attached_record t r of
              Some m \<Rightarrow> own_overrides t r
            | None \<Rightarrow> (case scope (t ! r) of None \<Rightarrow> [] | Some p \<Rightarrow> nearest_overrides t p))"
  by (simp add: nearest_overrides_def own_overrides_def labelOverrides_def
      nearest_record_unfold[OF assms]
      split: option.splits)

lemma resolveLabels_step:
  assumes "wf_tree t" "r < length t" "resolveLabels (scope (t ! r)) t = Some (inherited, t)"
    and "distinct (map fst inherited)"
  shows "\<exists>obj. resolveLabels (Some r) t = Some (obj, t) \<and> distinct (map fst obj) \<and>
           map_of obj = overlay (map_of inherited) (nearest_overrides t r)"
proof -
  have "(case (case nearest_record t r of None \<Rightarrow> None | Some m \<Rightarrow> labels (t ! m)) of
           None \<Rightarrow> [] | Some ls \<Rightarrow> ls) = nearest_overrides t r"
    by (simp add: nearest_overrides_def labelOverrides_def split: option.splits)
  with map_of_resolved[OF assms(4)] resolveLabels_Some[OF assms(1-3)] show ?thesis
    by (simp add: distinct_filterUndefined)
qed

lemma resolveLabels_main:
  "wf_tree t \<Longrightarrow> r < length t \<Longrightarrow>
   \<exists>obj inherited.
     resolveLabels (Some r) t = Some (obj, t) \<and>
     resolveLabels (scope (t ! r)) t = Some (inherited, t) \<and>
     distinct (map fst obj) \<and> distinct (map fst inherited) \<and>
     map_of obj = overlay (map_of inherited) (own_overrides t r) \<and>
     overlay (map_of obj) (nearest_overrides t r) = map_of obj"
proof (induction r rule: less_induct)
  case (less r)
  note nu = nearest_overrides_unfold[OF less.prems]
  have "\<exists>inherited. resolveLabels (scope (t ! r)) t = Some (inherited, t) \<and>
          distinct (map fst inherited) \<and>
          (attached_record t r = None \<longrightarrow>
             overlay (map_of inherited) (nearest_overrides t r) = map_of inherited)"
  proof (cases "scope (t ! r)")
    case None
    show ?thesis
    proof (intro exI[of _ "[]"] conjI impI)
      show "resolveLabels (scope (t ! r)) t = Some ([], t)"
        using None by (simp add: resolveLabels_None)
      show "distinct (map fst ([] :: string js_object))" by simp
      assume "attached_record t r = None"
      with nu None have "nearest_overrides t r = []" by simp
      then show "overlay (map_of []) (nearest_overrides t r) = map_of ([] :: string js_object)"
        by (simp add: overlay_Nil)
    qed
  next
    case (Some p)
    with less.prems have "p < r" by (auto dest: wf_parent)
    with less.prems have "p < length t" by simp
    from less.IH[OF \<open>p < r\<close> less.prems(1) this]
    obtain obj where pobj: "resolveLabels (Some p) t = Some (obj, t)"
      "distinct (map fst obj)" "overlay (map_of obj) (nearest_overrides t p) = map_of obj"
      by (elim exE conjE) (rule that; assumption)
    show ?thesis
    proof (intro exI[of _ obj] conjI impI)
      show "resolveLabels (scope (t ! r)) t = Some (obj, t)" using Some pobj(1) by simp
      show "distinct (map fst obj)" by (rule pobj(2))
      assume "attached_record t r = None"
      with nu Some have "nearest_overrides t r = nearest_overrides t p" by simp
      with pobj(3) show "overlay (map_of obj) (nearest_overrides t r) = map_of obj" by simp
    qed
  qed
  then obtain inherited where inh: "resolveLabels (scope (t ! r)) t = Some (inherited, t)"
    "distinct (map fst inherited)"
    "attached_record t r = None \<longrightarrow>
       overlay (map_of inherited) (nearest_overrides t r) = map_of inherited"
    by (elim exE conjE) (rule that; assumption)
  from resolveLabels_step[OF less.prems inh(1,2)] obtain obj where
    obj: "resolveLabels (Some r) t = Some (obj, t)" "distinct (map fst obj)"
    "map_of obj = overlay (map_of inherited) (nearest_overrides t r)"
    by (elim exE conjE) (rule that; assumption)
  have own: "map_of obj = overlay (map_of inherited) (own_overrides t r)"
  proof (cases "attached_record t r")
    case None
    then have "own_overrides t r = []" by (simp add: own_overrides_def)
    moreover from inh(3) None have "map_of obj = map_of inherited"
      unfolding obj(3) by (rule mp)
    ultimately show ?thesis by (simp add: overlay_Nil)
  next
    case (Some m)
    with nu have "nearest_overrides t r = own_overrides t r" by simp
    then show ?thesis unfolding obj(3) by simp
  qed
  have idem: "overlay (map_of obj) (nearest_overrides t r) = map_of obj"
    unfolding obj(3) by (rule overlay_idem)
  show ?case
    by (intro exI[of _ obj] exI[of _ inherited] conjI)
       (rule obj(1) inh(1) obj(2) inh(2) own idem)+
qed

lemma resolveLabels_no_proto:
  assumes "wf_tree t"
    and "\<And>m. ''__proto__'' \<notin> set (Object_keys (labelOverrides t m))"
  shows "r < length t \<Longrightarrow> resolveLabels (Some r) t = Some (obj, t) \<Longrightarrow>
         ''__proto__'' \<notin> set (Object_keys obj)"
proof (induction r arbitrary: obj rule: less_induct)
  case (less r)
  from resolveLabels_main[OF assms(1) less.prems(1)] less.prems(2) obtain inherited where
    inh: "resolveLabels (scope (t ! r)) t = Some (inherited, t)"
    and eq: "map_of obj = overlay (map_of inherited) (own_overrides t r)"
    by auto
  have "map_of inherited ''__proto__'' = None"
  proof (cases "scope (t ! r)")
    case None
    with inh show ?thesis by (simp add: resolveLabels_None)
  next
    case (Some p)
    with less.prems(1) assms(1) have "p < r" by (auto dest: wf_parent)
    with less.prems(1) have "p < length t" by simp
    from less.IH[OF \<open>p < r\<close> this] inh Some show ?thesis
      by (simp add: map_of_eq_None_iff Object_keys_def)
  qed
  moreover have "''__proto__'' \<notin> set (Object_keys (own_overrides t r))"
  proof (cases "attached_record t r")
    case None
    then show ?thesis by (simp add: own_overrides_def Object_keys_def)
  next
    case (Some m)
    with assms(2)[of m] show ?thesis by (simp add: own_overrides_def)
  qed
  then have "map_of (rev (own_overrides t r)) ''__proto__'' = None"
    by (simp add: map_of_eq_None_iff Object_keys_def)
  ultimately have "map_of obj ''__proto__'' = None"
    by (simp add: eq overlay_apply)
  then show ?case by (simp add: map_of_eq_None_iff Object_keys_def)
qed

lemma resolveLabels_total:
  assumes "wf_tree t" "r < length t"
  shows "\<exists>obj. resolveLabels (Some r) t = Some (obj, t)"
  using resolveLabels_main[OF assms] by blast

lemma resolveLabels_no_metadata:
  "wf_tree t \<Longrightarrow> r < length t \<Longrightarrow> nearest_record t r = None \<Longrightarrow>
   resolveLabels (Some r) t = Some ([], t)"
proof (induction r rule: less_induct)
  case (less r)
  from less.prems(3) nearest_record_unfold[OF less.prems(1,2)]
  have none: "attached_record t r = None"
    and up: "\<And>p. scope (t ! r) = Some p \<Longrightarrow> nearest_record t p = None"
    by (auto split: option.splits)
  have "resolveLabels (scope (t ! r)) t = Some ([], t)"
  proof (cases "scope (t ! r)")
    case None
    then show ?thesis by (simp add: resolveLabels_None)
  next
    case (Some p)
    with less.prems have "p < r" by (auto dest: wf_parent)
    with less.prems have "p < length t" by simp
    from less.IH[OF \<open>p < r\<close> less.prems(1) this up[OF Some]] Some show ?thesis by simp
  qed
  from resolveLabels_Some[OF less.prems(1,2) this] less.prems(3)
  show ?case
    by (simp add: as_Labels_def spread_def spread_opt_def filterUndefined_def Object_entries_def)
qed

lemma resolveLabels_cong:
  assumes wf: "wf_tree t" and wf': "wf_tree t'"
    and len: "length t' = length t"
    and sc: "\<And>s. scope (t' ! s) = scope (t ! s)"
    and step: "\<And>s inh. s < length t \<Longrightarrow> resolveLabels (scope (t ! s)) t = Some (inh, t) \<Longrightarrow>
        overlay (map_of inh) (own_overrides t' s) = overlay (map_of inh) (own_overrides t s)"
  shows "r < length t \<Longrightarrow>
         \<exists>a b. resolveLabels (Some r) t = Some (a, t) \<and>
               resolveLabels (Some r) t' = Some (b, t') \<and> map_of a = map_of b"
proof (induction r rule: less_induct)
  case (less r)
  from resolveLabels_main[OF wf less.prems] obtain a ia where
    a: "resolveLabels (Some r) t = Some (a, t)" "resolveLabels (scope (t ! r)) t = Some (ia, t)"
    "map_of a = overlay (map_of ia) (own_overrides t r)"
    by (elim exE conjE)
  from less.prems len have "r < length t'" by simp
  from resolveLabels_main[OF wf' this] obtain b ib where
    b: "resolveLabels (Some r) t' = Some (b, t')" "resolveLabels (scope (t ! r)) t' = Some (ib, t')"
    "map_of b = overlay (map_of ib) (own_overrides t' r)"
    unfolding sc by (elim exE conjE)
  have "map_of ib = map_of ia"
  proof (cases "scope (t ! r)")
    case None
    with a(2) b(2) show ?thesis by (simp add: resolveLabels_None)
  next
    case (Some p)
    with less.prems wf have "p < r" by (auto dest: wf_parent)
    with less.prems have "p < length t" by simp
    from less.IH[OF \<open>p < r\<close> this] Some a(2) b(2) show ?thesis by auto
  qed
  with b(3) step[OF less.prems a(2)] a(3) have "map_of a = map_of b" by simp
  with a(1) b(1) show ?case by (intro exI conjI)
qed

lemma resolveLabels_direct_None: "resolveLabels_direct None t = Some ([], t)"
  by (subst resolveLabels_direct.simps) simp

lemma resolveLabels_direct_Some:
  assumes "resolveLabels_direct (scope (t ! r)) t = Some (inherited, t)"
  shows "resolveLabels_direct (Some r) t =
           Some (filterUndefined
                   (spread_opt (spread [] (as_Labels inherited))
                      (case attached_record t r of None \<Rightarrow> None | Some m \<Rightarrow> labels (t ! m))), t)"
  by (subst resolveLabels_direct.simps)
     (simp add: assms tryGetMetadata_def attached_record_def)

lemma resolveLabels_direct_main:
  "wf_tree t \<Longrightarrow> r < length t \<Longrightarrow>
   \<exists>obj inherited.
     resolveLabels_direct (Some r) t = Some (obj, t) \<and>
     resolveLabels_direct (scope (t ! r)) t = Some (inherited, t) \<and>
     distinct (map fst obj) \<and>
     map_of obj = overlay (map_of inherited) (own_overrides t r)"
proof (induction r rule: less_induct)
  case (less r)
  have "\<exists>inherited. resolveLabels_direct (scope (t ! r)) t = Some (inherited, t) \<and>
          distinct (map fst inherited)"
  proof (cases "scope (t ! r)")
    case None
    then show ?thesis by (simp add: resolveLabels_direct_None)
  next
    case (Some p)
    with less.prems have "p < r" by (auto dest: wf_parent)
    with less.prems have "p < length t" by simp
    from less.IH[OF \<open>p < r\<close> less.prems(1) this] Some show ?thesis by auto
  qed
  then obtain inherited where inh: "resolveLabels_direct (scope (t ! r)) t = Some (inherited, t)"
    "distinct (map fst inherited)" by (elim exE conjE)
  let ?obj = "filterUndefined (spread_opt (spread [] (as_Labels inherited))
                (case attached_record t r of None \<Rightarrow> None | Some m \<Rightarrow> labels (t ! m)))"
  have own: "(case (case attached_record t r of None \<Rightarrow> None | Some m \<Rightarrow> labels (t ! m)) of
                None \<Rightarrow> [] | Some ls \<Rightarrow> ls) = own_overrides t r"
    by (simp add: own_overrides_def labelOverrides_def split: option.splits)
  have m: "map_of ?obj = overlay (map_of inherited) (own_overrides t r)"
    using map_of_resolved[OF inh(2)] own by simp
  show ?case
    by (intro exI[of _ ?obj] exI[of _ inherited] conjI)
       (rule resolveLabels_direct_Some[OF inh(1)] inh(1) distinct_filterUndefined m)+
qed

subsection \<open>Queries return the store they were given\<close>

lemma lookupMetadata_frame:
  assumes "lookupMetadata sc t = Some y"
  shows "snd y = t"
proof (rule lookupMetadata.raw_induct[where P = "\<lambda>sc t y. snd y = t", OF _ assms], goal_cases)
  case (1 lookupMetadata sc t y)
  then show ?case
    by (auto simp: tryGetMetadata_def split: option.splits)
qed

lemma resolveNamespace_frame:
  assumes "resolveNamespace sc t = Some y"
  shows "snd y = t"
proof (rule resolveNamespace.raw_induct[where P = "\<lambda>sc t y. snd y = t", OF _ assms], goal_cases)
  case (1 resolveNamespace sc t y)
  show ?case
  proof (cases sc)
    case None
    with 1(2) show ?thesis by auto
  next
    case (Some r)
    with 1(2) obtain md t1 where l: "lookupMetadata (Some r) t = Some (md, t1)"
      by (auto simp: bind_eq_Some_conv)
    then have t1: "t1 = t" by (auto dest: lookupMetadata_frame)
    show ?thesis
    proof (cases "case md of None \<Rightarrow> None | Some m \<Rightarrow> namespace (t ! m)")
      case None
      with 1(2) Some l t1 obtain z where "resolveNamespace (scope (t ! r)) t = Some z" "snd y = snd z"
        by (auto simp: bind_eq_Some_conv)
      with 1(1) show ?thesis by auto
    next
      case (Some v)
      with 1(2) \<open>sc = Some r\<close> l t1 show ?thesis by (auto simp: bind_eq_Some_conv)
    qed
  qed
qed

lemma resolveNamespace_never_empty: "resolveNamespace sc t = Some (v, t') \<Longrightarrow> v \<noteq> Some ''''"
  by (subst (asm) resolveNamespace.simps)
     (auto simp: bind_eq_Some_conv split: option.splits if_splits)

lemma resolveLabels_frame:
  assumes "resolveLabels sc t = Some y"
  shows "snd y = t"
proof (rule resolveLabels.raw_induct[where P = "\<lambda>sc t y. snd y = t", OF _ assms], goal_cases)
  case (1 resolveLabels sc t y)
  show ?case
  proof (cases sc)
    case None
    with 1(2) show ?thesis by auto
  next
    case (Some r)
    with 1(2) obtain inh t1 where i: "resolveLabels (scope (t ! r)) t = Some (inh, t1)"
      by (auto simp: bind_eq_Some_conv)
    with 1(1) have t1: "t1 = t" by fastforce
    with 1(2) Some i obtain md t2 where l: "lookupMetadata (Some r) t = Some (md, t2)" "snd y = t2"
      by (auto simp: bind_eq_Some_conv)
    then show ?thesis by (auto dest: lookupMetadata_frame)
  qed
qed

subsection \<open>The methods that change a record\<close>

lemma nth_update_field:
  assumes "\<And>x. f (g x) = f x"
  shows "f (t[m := g (t ! m)] ! s) = f (t ! s)"
proof (cases "m < length t")
  case True
  then show ?thesis by (cases "s = m") (simp_all add: assms)
next
  case False
  then have "length t \<le> m" by simp
  then show ?thesis by (simp add: list_update_beyond)
qed

lemma children_list_update_field:
  "children (t[m := (t ! m)\<lparr>namespace := x\<rparr>] ! s) = children (t ! s)"
  "children (t[m := (t ! m)\<lparr>labels := y\<rparr>] ! s) = children (t ! s)"
  "scope (t[m := (t ! m)\<lparr>namespace := x\<rparr>] ! s) = scope (t ! s)"
  "scope (t[m := (t ! m)\<lparr>labels := y\<rparr>] ! s) = scope (t ! s)"
  using nth_update_field[of children "\<lambda>c. c\<lparr>namespace := x\<rparr>" t m s]
    nth_update_field[of children "\<lambda>c. c\<lparr>labels := y\<rparr>" t m s]
    nth_update_field[of scope "\<lambda>c. c\<lparr>namespace := x\<rparr>" t m s]
    nth_update_field[of scope "\<lambda>c. c\<lparr>labels := y\<rparr>" t m s]
  by simp_all

lemma attached_record_addNamespace:
  "attached_record (addNamespace m v t) s = attached_record t s"
  by (simp add: attached_record_def tryFindChild_def addNamespace_def children_list_update_field)

lemma wf_tree_addNamespace: "wf_tree (addNamespace m v t) = wf_tree t"
  by (simp add: wf_tree_def addNamespace_def children_list_update_field)

lemma length_addLabels: "length (addLabels m ls t) = length t"
  by (simp add: addLabels_def)

lemma scope_addLabels: "scope (addLabels m ls t ! r) = scope (t ! r)"
  by (simp add: addLabels_def children_list_update_field)

lemma children_addLabels: "children (addLabels m ls t ! r) = children (t ! r)"
  by (simp add: addLabels_def children_list_update_field)


lemma wf_tree_addLabels: "wf_tree (addLabels m ls t) = wf_tree t"
  by (simp add: wf_tree_def length_addLabels scope_addLabels children_addLabels)


lemma labelOverrides_addLabels:
  "m < length t \<Longrightarrow>
   labelOverrides (addLabels m ls t) m = sortByKey (spread (spread [] (labelOverrides t m)) ls)"
  by (simp add: labelOverrides_def addLabels_def spread_opt_def spread_def split: option.splits)

lemma map_of_labelOverrides_addLabels:
  assumes "m < length t"
  shows "map_of (labelOverrides (addLabels m ls t) m) =
           without_proto (map_of (rev (labelOverrides t m)) ++ map_of (rev ls))"
  by (simp add: labelOverrides_addLabels[OF assms] map_of_sortByKey map_of_spread)

lemma addLabels_never_stores_proto:
  "m < length t \<Longrightarrow> ''__proto__'' \<notin> set (Object_keys (labelOverrides (addLabels m ls t) m))"
  by (simp add: labelOverrides_addLabels proto_sortByKey)

lemma addLabels_drops_proto:
  "labelOverrides (addLabels 1 [(''__proto__'', Some ''x''), (''a'', Some ''1'')] tree_root) 1
     = [(''a'', Some ''1'')]"
  by code_simp

subsection \<open>Attaching a record\<close>

lemma length_new_Construct: "length (snd (new_Construct s i t)) = Suc (length t)"
  by (simp add: new_Construct_def)

lemma nth_new_Construct_old:
  "r < length t \<Longrightarrow>
   snd (new_Construct s i t) ! r =
     (if r = s then (t ! s)\<lparr>children := children (t ! s) @ [(i, length t)]\<rparr> else t ! r)"
  by (simp add: new_Construct_def nth_append)

lemma nth_new_Construct_new:
  "snd (new_Construct s i t) ! length t =
     \<lparr>scope = Some s, children = [], labels = None, namespace = None\<rparr>"
  by (simp add: new_Construct_def nth_append)

lemma scope_new_Construct:
  "r < length t \<Longrightarrow> scope (snd (new_Construct s i t) ! r) = scope (t ! r)"
  by (simp add: nth_new_Construct_old)

lemma children_new_Construct:
  "r < length t \<Longrightarrow>
   children (snd (new_Construct s i t) ! r) =
     (if r = s then children (t ! s) @ [(i, length t)] else children (t ! r))"
  by (simp add: nth_new_Construct_old)

lemma wf_tree_new_Construct:
  assumes "wf_tree t" "s < length t"
  shows "wf_tree (snd (new_Construct s i t))"
proof (rule wf_treeI)
  let ?t = "snd (new_Construct s i t)"
  fix r p
  assume r: "r < length ?t" and p: "scope (?t ! r) = Some p"
  show "p < r"
  proof (cases "r < length t")
    case True
    with p assms(1) show ?thesis by (auto simp: scope_new_Construct dest: wf_parent)
  next
    case False
    with r have "r = length t" by (simp add: length_new_Construct)
    with p assms(2) show ?thesis by (simp add: nth_new_Construct_new)
  qed
next
  let ?t = "snd (new_Construct s i t)"
  fix r j c
  assume r: "r < length ?t" and c: "(j, c) \<in> set (children (?t ! r))"
  show "c < length ?t \<and> scope (?t ! c) = Some r"
  proof (cases "r < length t")
    case True
    show ?thesis
    proof (cases "(j, c) \<in> set (children (t ! r))")
      case old: True
      with assms(1) \<open>r < length t\<close> have "c < length t" "scope (t ! c) = Some r"
        by (auto dest: wf_child)
      then show ?thesis by (simp add: length_new_Construct scope_new_Construct)
    next
      case False
      with c True have "r = s" "c = length t"
        by (auto simp: children_new_Construct split: if_splits)
      then show ?thesis by (simp add: length_new_Construct nth_new_Construct_new)
    qed
  next
    case False
    with r have "r = length t" by (simp add: length_new_Construct)
    with c show ?thesis by (simp add: nth_new_Construct_new)
  qed
qed

lemma Metadata_of_found:
  "attached_record t s = Some m \<Longrightarrow> Metadata_of s t = (m, t)"
  by (simp add: Metadata_of_def tryGetMetadata_def attached_record_def)

lemma Metadata_of_new:
  "attached_record t s = None \<Longrightarrow> Metadata_of s t = new_Construct s id_cdk8s t"
  by (simp add: Metadata_of_def tryGetMetadata_def attached_record_def)

lemma attached_record_new_Construct:
  assumes "s < length t" "attached_record t s = None"
  shows "attached_record (snd (new_Construct s id_cdk8s t)) s = Some (length t)"
proof -
  from assms(2) have "id_cdk8s \<notin> fst ` set (children (t ! s))"
    by (simp add: attached_record_def tryFindChild_def map_of_eq_None_iff)
  then show ?thesis
    by (simp add: attached_record_def tryFindChild_def children_new_Construct[OF assms(1)]
        map_of_snoc del: map_of_append)
qed

lemma attached_record_new_Construct_other:
  "s' < length t \<Longrightarrow> s' \<noteq> s \<Longrightarrow>
   attached_record (snd (new_Construct s i t)) s' = attached_record t s'"
  by (simp add: attached_record_def tryFindChild_def children_new_Construct)

lemma Metadata_of_attached:
  assumes "s < length t"
  shows "attached_record (snd (Metadata_of s t)) s = Some (fst (Metadata_of s t))"
proof (cases "attached_record t s")
  case None
  with attached_record_new_Construct[OF assms None] show ?thesis
    by (simp add: Metadata_of_new new_Construct_def)
next
  case (Some m)
  then show ?thesis by (simp add: Metadata_of_found)
qed

lemma Metadata_of_idem:
  assumes "s < length t"
  shows "Metadata_of s (snd (Metadata_of s t)) = Metadata_of s t"
  using Metadata_of_found[OF Metadata_of_attached[OF assms]] by simp

lemma wf_tree_Metadata_of:
  assumes "wf_tree t" "s < length t"
  shows "wf_tree (snd (Metadata_of s t))"
proof (cases "attached_record t s")
  case None
  with wf_tree_new_Construct[OF assms] show ?thesis by (simp add: Metadata_of_new)
next
  case (Some m)
  with assms(1) show ?thesis by (simp add: Metadata_of_found)
qed

lemma Metadata_of_valid:
  assumes "wf_tree t" "s < length t"
  shows "fst (Metadata_of s t) < length (snd (Metadata_of s t))"
    and "length t \<le> length (snd (Metadata_of s t))"
proof -
  show "fst (Metadata_of s t) < length (snd (Metadata_of s t))"
  proof (cases "attached_record t s")
    case None
    then show ?thesis by (simp add: Metadata_of_new new_Construct_def)
  next
    case (Some m)
    with attached_record_valid[OF assms Some] show ?thesis by (simp add: Metadata_of_found)
  qed
  show "length t \<le> length (snd (Metadata_of s t))"
    by (cases "attached_record t s") (simp_all add: Metadata_of_new Metadata_of_found new_Construct_def)
qed

lemma Metadata_of_distinct_scopes:
  assumes "wf_tree t" "s < length t" "s' < length t" "s' \<noteq> s"
    and "attached_record t s = Some m"
  shows "fst (Metadata_of s' t) \<noteq> m"
proof (cases "attached_record t s'")
  case None
  moreover from assms(1,2,5) have "m < length t" by (rule attached_record_valid)
  ultimately show ?thesis by (simp add: Metadata_of_new new_Construct_def)
next
  case (Some m')
  with attached_record_unique[OF assms(1,2,3,5)] assms(4) show ?thesis
    by (auto simp: Metadata_of_found)
qed

subsection \<open>The example trees\<close>

text \<open>
  Well-formedness holds of a single root and is kept by every operation
  (\<open>wf_tree_new_Construct\<close>, \<open>wf_tree_Metadata_of\<close>, \<open>wf_tree_addLabels\<close>,
  \<open>wf_tree_addNamespace\<close>), and the example trees are what the operations build from a
  single root.
\<close>

lemma wf_tree_initial:
  "wf_tree [\<lparr>scope = None, children = [], labels = None, namespace = None\<rparr>]"
  by (simp add: wf_tree_def)

lemma wf_tree_namespaces: "wf_tree tree_namespaces"
  by (simp add: wf_tree_def tree_namespaces_def)

lemma wf_tree_labels: "wf_tree tree_labels"
  by (simp add: wf_tree_def tree_labels_def)

lemma wf_tree_root: "wf_tree tree_root"
  by (simp add: wf_tree_def tree_root_def)

lemma wf_tree_bare: "wf_tree tree_bare"
  by (simp add: wf_tree_def tree_bare_def)

lemma tree_labels_built:
  "addLabels 3 [(''k'', Some ''v'')]
     (snd (Metadata_of 1 (snd (Metadata_of 0
       (snd (new_Construct 1 ''child'' (snd (new_Construct 0 ''parent''
          [\<lparr>scope = None, children = [], labels = None, namespace = None\<rparr>])))))))) = tree_labels"
  by code_simp

lemma tree_namespaces_built:
  "addNamespace 4 None (snd (Metadata_of 1
     (addNamespace 3 (Some ''root'') (snd (Metadata_of 0
       (snd (new_Construct 1 ''child'' (snd (new_Construct 0 ''parent''
          [\<lparr>scope = None, children = [], labels = None, namespace = None\<rparr>])))))))))
   = tree_namespaces"
  by code_simp

lemma tree_root_built:
  "snd (Metadata_of 0 [\<lparr>scope = None, children = [], labels = None, namespace = None\<rparr>])
     = tree_root"
  by code_simp

section \<open>The claims\<close>

subsection \<open>Resolving the namespace\<close>

text \<open>
  C1. On a well-formed tree (finite, every parent older than its children) the walk of
  \<open>resolveNamespace\<close> ends for every scope, and its value is decided by the first scope,
  from the scope itself towards the root, whose attached record has a namespace override
  that is not unset: absent when that override is the empty string (the removed
  namespace), the stored string otherwise, and absent when no such scope exists. A scope
  whose own record holds the removed namespace resolves to absent whatever its ancestors
  hold.
\<close>

theorem resolveNamespace_nearest_decision:
  assumes "wf_tree t" and "r < length t"
  shows "resolveNamespace (Some r) t = Some (spec_resolve_namespace t r, t) \<and>
         (namespace_override t r = Some '''' \<longrightarrow> resolveNamespace (Some r) t = Some (None, t))"
proof (intro conjI impI)
  show eq: "resolveNamespace (Some r) t = Some (spec_resolve_namespace t r, t)"
    using assms by (rule resolveNamespace_spec)
  assume "namespace_override t r = Some ''''"
  then have "spec_resolve_namespace t r = None"
    by (simp add: spec_resolve_namespace_def nearest_decision_unfold[OF assms])
  with eq show "resolveNamespace (Some r) t = Some (None, t)" by simp
qed

text \<open>
  The tree of the test: the root resolves to \<^verbatim>\<open>root\<close>, and \<^verbatim>\<open>parent\<close>, which removed
  the namespace, and its child resolve to absent.
\<close>

theorem resolveNamespace_nearest_decision_witness:
  "wf_tree tree_namespaces \<and>
   resolveNamespace (Some 2) tree_namespaces = Some (None, tree_namespaces) \<and>
   resolveNamespace (Some 1) tree_namespaces = Some (None, tree_namespaces) \<and>
   resolveNamespace (Some 0) tree_namespaces = Some (Some ''root'', tree_namespaces)"
proof -
  have len: "2 < length tree_namespaces" "1 < length tree_namespaces"
    "0 < length tree_namespaces"
    by (simp_all add: tree_namespaces_def)
  have "spec_resolve_namespace tree_namespaces 2 = None"
    "spec_resolve_namespace tree_namespaces 1 = None"
    "spec_resolve_namespace tree_namespaces 0 = Some ''root''"
    by code_simp+
  with resolveNamespace_nearest_decision[OF wf_tree_namespaces len(1)]
    resolveNamespace_nearest_decision[OF wf_tree_namespaces len(2)]
    resolveNamespace_nearest_decision[OF wf_tree_namespaces len(3)]
    wf_tree_namespaces
  show ?thesis by simp
qed

subsection \<open>Resolving the labels\<close>

text \<open>
  C2. On a well-formed tree \<open>resolveLabels\<close> returns for every scope, and the mapping
  it returns is the mapping resolved for the parent of the scope (the empty mapping for a
  root), overlaid with the overrides of the record attached to the scope itself: a
  string replaces the inherited entry of its key, the unset marker deletes it. The values
  of the result are strings by its type, and a scope with no record on itself or on any
  ancestor resolves to the empty mapping.
\<close>

theorem resolveLabels_overlays_parent:
  assumes "wf_tree t" and "r < length t"
  shows "\<exists>obj inherited.
           resolveLabels (Some r) t = Some (obj, t) \<and>
           resolveLabels (scope (t ! r)) t = Some (inherited, t) \<and>
           map_of obj = overlay (map_of inherited) (own_overrides t r) \<and>
           (scope (t ! r) = None \<longrightarrow> inherited = []) \<and>
           (nearest_record t r = None \<longrightarrow> obj = [])"
proof -
  from resolveLabels_main[OF assms] obtain obj inherited where
    a: "resolveLabels (Some r) t = Some (obj, t)"
    and b: "resolveLabels (scope (t ! r)) t = Some (inherited, t)"
    and c: "map_of obj = overlay (map_of inherited) (own_overrides t r)"
    by (elim exE conjE)
  have d: "scope (t ! r) = None \<longrightarrow> inherited = []"
    using b by (auto simp: resolveLabels_None)
  have e: "nearest_record t r = None \<longrightarrow> obj = []"
    using a resolveLabels_no_metadata[OF assms] by auto
  from a b c d e show ?thesis by (intro exI conjI)
qed

text \<open>
  The root holds \<^verbatim>\<open>k: 'v'\<close>; the record of \<^verbatim>\<open>parent\<close> unsets \<^verbatim>\<open>k\<close> and sets
  \<^verbatim>\<open>j: 'w'\<close>: \<^verbatim>\<open>parent\<close> resolves to \<^verbatim>\<open>j: 'w'\<close> alone.
\<close>

theorem resolveLabels_overlays_parent_witness:
  "resolveLabels (Some 1) (addLabels 4 [(''k'', None), (''j'', Some ''w'')] tree_labels)
     = Some ([(''j'', ''w'')], addLabels 4 [(''k'', None), (''j'', Some ''w'')] tree_labels) \<and>
   resolveLabels (Some 0) (addLabels 4 [(''k'', None), (''j'', Some ''w'')] tree_labels)
     = Some ([(''k'', ''v'')], addLabels 4 [(''k'', None), (''j'', Some ''w'')] tree_labels) \<and>
   own_overrides (addLabels 4 [(''k'', None), (''j'', Some ''w'')] tree_labels) 1
     = [(''j'', Some ''w''), (''k'', None)] \<and>
   map_of [(''j'', ''w'')] = overlay (map_of [(''k'', ''v'')]) [(''j'', Some ''w''), (''k'', None)]"
proof -
  let ?t = "addLabels 4 [(''k'', None), (''j'', Some ''w'')] tree_labels"
  have wf: "wf_tree ?t" by code_simp
  have len: "1 < length ?t" by code_simp
  have sc: "scope (?t ! 1) = Some 0" by code_simp
  have r1: "resolveLabels (Some 1) ?t = Some ([(''j'', ''w'')], ?t)" by code_simp
  have r0: "resolveLabels (Some 0) ?t = Some ([(''k'', ''v'')], ?t)" by code_simp
  have own: "own_overrides ?t 1 = [(''j'', Some ''w''), (''k'', None)]" by code_simp
  from resolveLabels_overlays_parent[OF wf len] r1 r0 sc own
  have "map_of [(''j'', ''w'')] = overlay (map_of [(''k'', ''v'')]) [(''j'', Some ''w''), (''k'', None)]"
    by auto
  with r1 r0 own show ?thesis by simp
qed

subsection \<open>Setting labels\<close>

text \<open>
  C3, as amended. \<open>addLabels\<close> stores every entry of its argument under its key, the key
  \<^verbatim>\<open>__proto__\<close> aside: a string as given, and the unset marker as such, so that the
  key stays (or appears) in the stored overrides with the unset marker; the keys that the
  argument does not mention keep what they had. Objects have unique keys.
\<close>

theorem addLabels_merges:
  assumes "m < length t"
    and "distinct (Object_keys ls)"
    and "distinct (Object_keys (labelOverrides t m))"
    and "k \<noteq> ''__proto__''"
  shows "map_of (labelOverrides (addLabels m ls t) m) k =
           (case map_of ls k of Some v \<Rightarrow> Some v | None \<Rightarrow> map_of (labelOverrides t m) k) \<and>
         distinct (Object_keys (labelOverrides (addLabels m ls t) m))"
proof
  from assms(2,3) have "map_of (rev ls) = map_of ls"
    "map_of (rev (labelOverrides t m)) = map_of (labelOverrides t m)"
    by (simp_all add: Object_keys_def map_of_rev_distinct)
  with assms(4) show "map_of (labelOverrides (addLabels m ls t) m) k =
      (case map_of ls k of Some v \<Rightarrow> Some v | None \<Rightarrow> map_of (labelOverrides t m) k)"
    by (simp add: map_of_labelOverrides_addLabels[OF assms(1)] without_proto_apply map_add_def)
  show "distinct (Object_keys (labelOverrides (addLabels m ls t) m))"
    by (simp add: labelOverrides_addLabels[OF assms(1)] Object_keys_def distinct_sortByKey)
qed

text \<open>
  The record of the root, which holds \<^verbatim>\<open>k: 'v'\<close>, after
  \<^verbatim>\<open>addLabels({j: 'w', i: undefined})\<close>: the two entries are stored, the marker as
  such, and \<^verbatim>\<open>k\<close>, which the argument does not mention, keeps its value.
\<close>

theorem addLabels_merges_witness:
  "labelOverrides (addLabels 3 [(''j'', Some ''w''), (''i'', None)] tree_labels) 3
     = [(''i'', None), (''j'', Some ''w''), (''k'', Some ''v'')] \<and>
   map_of (labelOverrides (addLabels 3 [(''j'', Some ''w''), (''i'', None)] tree_labels) 3) ''k''
     = Some (Some ''v'') \<and>
   map_of (labelOverrides (addLabels 3 [(''j'', Some ''w''), (''i'', None)] tree_labels) 3) ''i''
     = Some None \<and>
   map_of (labelOverrides (addLabels 3 [(''j'', Some ''w''), (''i'', None)] tree_labels) 3) ''j''
     = Some (Some ''w'')"
proof -
  let ?ls = "[(''j'', Some ''w''), (''i'', None)]"
  have a: "3 < length tree_labels" "distinct (Object_keys ?ls)"
    "distinct (Object_keys (labelOverrides tree_labels 3))"
    by code_simp+
  have old: "map_of (labelOverrides tree_labels 3) ''k'' = Some (Some ''v'')"
    by code_simp
  have b: "labelOverrides (addLabels 3 ?ls tree_labels) 3
     = [(''i'', None), (''j'', Some ''w''), (''k'', Some ''v'')]" by code_simp
  have ne: "''k'' \<noteq> ''__proto__''" "''i'' \<noteq> ''__proto__''" "''j'' \<noteq> ''__proto__''"
    by simp_all
  from addLabels_merges[OF a ne(1)] addLabels_merges[OF a ne(2)] addLabels_merges[OF a ne(3)]
    old b
  show ?thesis by simp
qed

text \<open>
  C3 as stated fails: the unset marker does not remove the key from the stored overrides.
  After \<^verbatim>\<open>addLabels({k: undefined})\<close> on the record that holds \<^verbatim>\<open>k: 'v'\<close>, the key
  \<^verbatim>\<open>k\<close> is still a key of the record.
\<close>

theorem addLabels_unset_keeps_key:
  "labelOverrides tree_labels 3 = [(''k'', Some ''v'')] \<and>
   labelOverrides (addLabels 3 [(''k'', None)] tree_labels) 3 = [(''k'', None)] \<and>
   ''k'' \<in> set (Object_keys (labelOverrides (addLabels 3 [(''k'', None)] tree_labels) 3))"
  by code_simp




subsection \<open>Attaching metadata to a scope\<close>

text \<open>
  C5. \<open>Metadata.of\<close> on a scope of a well-formed tree: a second call returns the same
  record and leaves the tree as the first call left it, and so does any number of
  further calls; the scope gains at most one child; the record returned is the one
  attached to the scope; and a later call on any other scope returns another record.
\<close>

theorem Metadata_of_idempotent_per_scope:
  assumes "wf_tree t" and "s < length t"
  shows "Metadata_of s (snd (Metadata_of s t)) = Metadata_of s t \<and>
         ((\<lambda>u. snd (Metadata_of s u)) ^^ Suc n) t = snd (Metadata_of s t) \<and>
         length (children (snd (Metadata_of s t) ! s)) \<le> Suc (length (children (t ! s))) \<and>
         attached_record (snd (Metadata_of s t)) s = Some (fst (Metadata_of s t)) \<and>
         wf_tree (snd (Metadata_of s t)) \<and>
         (s' < length (snd (Metadata_of s t)) \<longrightarrow> s' \<noteq> s \<longrightarrow>
            fst (Metadata_of s' (snd (Metadata_of s t))) \<noteq> fst (Metadata_of s t))"
proof (intro conjI impI)
  let ?t = "snd (Metadata_of s t)"
  show idem: "Metadata_of s ?t = Metadata_of s t" using assms(2) by (rule Metadata_of_idem)
  show "((\<lambda>u. snd (Metadata_of s u)) ^^ Suc n) t = ?t"
  proof (induction n)
    case 0
    show ?case by simp
  next
    case (Suc n)
    have "((\<lambda>u. snd (Metadata_of s u)) ^^ Suc (Suc n)) t
            = snd (Metadata_of s (((\<lambda>u. snd (Metadata_of s u)) ^^ Suc n) t))" by simp
    also have "\<dots> = snd (Metadata_of s ?t)" by (simp only: Suc.IH)
    also have "\<dots> = ?t" by (simp only: idem)
    finally show ?case .
  qed
  show "length (children (?t ! s)) \<le> Suc (length (children (t ! s)))"
    using assms(2)
    by (cases "attached_record t s")
       (simp_all add: Metadata_of_new Metadata_of_found children_new_Construct)
  show att: "attached_record ?t s = Some (fst (Metadata_of s t))"
    using assms(2) by (rule Metadata_of_attached)
  show wf: "wf_tree ?t" using assms by (rule wf_tree_Metadata_of)
  assume s': "s' < length ?t" "s' \<noteq> s"
  from Metadata_of_valid(2)[OF assms] assms(2) have "s < length ?t" by simp
  from Metadata_of_distinct_scopes[OF wf this s' att]
  show "fst (Metadata_of s' ?t) \<noteq> fst (Metadata_of s t)" .
qed

text \<open>
  \<^verbatim>\<open>child\<close> has no record: the first call attaches one (5), the second returns it, and
  \<^verbatim>\<open>parent\<close> has its own (4).
\<close>

theorem Metadata_of_idempotent_per_scope_witness:
  "fst (Metadata_of 2 tree_labels) = 5 \<and>
   Metadata_of 2 (snd (Metadata_of 2 tree_labels)) = Metadata_of 2 tree_labels \<and>
   length (children (tree_labels ! 2)) = 0 \<and>
   length (children (snd (Metadata_of 2 (snd (Metadata_of 2 tree_labels))) ! 2)) = 1 \<and>
   fst (Metadata_of 1 (snd (Metadata_of 2 tree_labels))) = 4"
proof -
  have len: "2 < length tree_labels" "1 < length (snd (Metadata_of 2 tree_labels))"
    "(1::nat) \<noteq> 2"
    by code_simp+
  have e: "fst (Metadata_of 2 tree_labels) = 5" "length (children (tree_labels ! 2)) = 0"
    "length (children (snd (Metadata_of 2 tree_labels) ! 2)) = 1"
    "fst (Metadata_of 1 (snd (Metadata_of 2 tree_labels))) = 4"
    by code_simp+
  from Metadata_of_idempotent_per_scope[OF wf_tree_labels len(1), of 0 1] len e
  show ?thesis by simp
qed

subsection \<open>Removing the namespace\<close>

text \<open>
  C6. \<open>addNamespace\<close> with the empty string, \<open>addNamespace\<close> with
  \<^verbatim>\<open>undefined\<close> and \<open>removeNamespace\<close> leave the same store, in which the record
  holds the empty string; after them the scope the record is attached to resolves to
  absent, on every tree and so whatever the ancestors hold.
\<close>

theorem namespace_removals_agree:
  "addNamespace m (Some '''') t = addNamespace m None t \<and>
   removeNamespace m t = addNamespace m None t \<and>
   (m < length t \<longrightarrow> attached_record t s = Some m \<longrightarrow>
      resolveNamespace (Some s) (addNamespace m None t) = Some (None, addNamespace m None t))"
proof (intro conjI impI)
  show "addNamespace m (Some '''') t = addNamespace m None t"
    by (simp add: addNamespace_def)
  show "removeNamespace m t = addNamespace m None t"
    by (simp add: removeNamespace_def)
  assume m: "m < length t" and s: "attached_record t s = Some m"
  let ?t = "addNamespace m None t"
  have look: "lookupMetadata (Some s) ?t = Some (Some m, ?t)"
    using s by (simp add: lookupMetadata_Some attached_record_addNamespace)
  have "namespace (?t ! m) = Some ''''"
    using m by (simp add: addNamespace_def)
  with look show "resolveNamespace (Some s) ?t = Some (None, ?t)"
    by (subst resolveNamespace.simps) simp
qed

text \<open>
  The record of \<^verbatim>\<open>parent\<close>: after a removal \<^verbatim>\<open>parent\<close> resolves to absent, also
  when the record held a namespace before.
\<close>

theorem namespace_removals_agree_witness:
  "resolveNamespace (Some 1) (addNamespace 4 None tree_namespaces)
     = Some (None, addNamespace 4 None tree_namespaces) \<and>
   resolveNamespace (Some 1) (addNamespace 4 (Some ''ns'') tree_namespaces)
     = Some (Some ''ns'', addNamespace 4 (Some ''ns'') tree_namespaces) \<and>
   resolveNamespace (Some 1) (removeNamespace 4 (addNamespace 4 (Some ''ns'') tree_namespaces))
     = Some (None, removeNamespace 4 (addNamespace 4 (Some ''ns'') tree_namespaces))"
proof -
  let ?t = "addNamespace 4 (Some ''ns'') tree_namespaces"
  have a: "4 < length tree_namespaces" "attached_record tree_namespaces 1 = Some 4"
    by (simp_all add: tree_namespaces_def attached_record_def tryFindChild_def id_cdk8s_def)
  have b: "4 < length ?t" "attached_record ?t 1 = Some 4"
    using a by (simp_all add: attached_record_addNamespace) (simp add: addNamespace_def)
  have c: "resolveNamespace (Some 1) ?t = Some (Some ''ns'', ?t)"
    by code_simp
  from namespace_removals_agree[of 4 tree_namespaces 1] a
    namespace_removals_agree[of 4 ?t 1] b c
  show ?thesis by simp
qed

subsection \<open>Queries are reads\<close>

text \<open>
  C7. \<open>resolveNamespace\<close> and \<open>resolveLabels\<close> are reads: the store they return is
  the store they were given, so that no record is created and no scope gains a child; and
  on a well-formed tree both return for every scope.
\<close>

theorem queries_leave_tree_unchanged:
  "(\<forall>v t'. resolveNamespace sc t = Some (v, t') \<longrightarrow> t' = t) \<and>
   (\<forall>ls t'. resolveLabels sc t = Some (ls, t') \<longrightarrow> t' = t) \<and>
   (wf_tree t \<longrightarrow> r < length t \<longrightarrow>
      (\<exists>v. resolveNamespace (Some r) t = Some (v, t)) \<and>
      (\<exists>ls. resolveLabels (Some r) t = Some (ls, t)))"
proof (intro conjI allI impI)
  fix v t'
  assume "resolveNamespace sc t = Some (v, t')"
  from resolveNamespace_frame[OF this] show "t' = t" by simp
next
  fix ls t'
  assume "resolveLabels sc t = Some (ls, t')"
  from resolveLabels_frame[OF this] show "t' = t" by simp
next
  assume "wf_tree t" "r < length t"
  then show "\<exists>v. resolveNamespace (Some r) t = Some (v, t)"
    by (blast dest: resolveNamespace_spec)
next
  assume "wf_tree t" "r < length t"
  then show "\<exists>ls. resolveLabels (Some r) t = Some (ls, t)"
    by (rule resolveLabels_total)
qed

text \<open>
  The test: neither the root nor its child has a record; both queries return absent and
  the empty mapping for the child, with the tree they were given, where the child has no
  children and the root has one.
\<close>

theorem queries_leave_tree_unchanged_witness:
  "resolveNamespace (Some 1) tree_bare = Some (None, tree_bare) \<and>
   resolveLabels (Some 1) tree_bare = Some ([], tree_bare) \<and>
   nearest_record tree_bare 1 = None \<and>
   length (children (tree_bare ! 1)) = 0 \<and>
   length (children (tree_bare ! 0)) = 1"
proof -
  have len: "1 < length tree_bare" by (simp add: tree_bare_def)
  from queries_leave_tree_unchanged[of "Some 1" tree_bare 1] wf_tree_bare len
  obtain v ls where r: "resolveNamespace (Some 1) tree_bare = Some (v, tree_bare)"
    "resolveLabels (Some 1) tree_bare = Some (ls, tree_bare)" by blast
  have "resolveNamespace (Some 1) tree_bare = Some (None, tree_bare)"
    "resolveLabels (Some 1) tree_bare = Some ([], tree_bare)"
    by code_simp+
  moreover have "nearest_record tree_bare 1 = None" by code_simp
  moreover have "length (children (tree_bare ! 1)) = 0" "length (children (tree_bare ! 0)) = 1"
    by (simp_all add: tree_bare_def)
  ultimately show ?thesis using r by simp
qed

subsection \<open>The order of the stored keys\<close>

text \<open>
  C8 at the input \<^verbatim>\<open>addLabels({'9': 'a', '10': 'b'})\<close> on a record with no labels:
  \<open>sortByKey\<close> inserts \<^verbatim>\<open>10\<close> before \<^verbatim>\<open>9\<close>, but both keys are array indices,
  which the object enumerates in numeric order, so the stored keys are \<^verbatim>\<open>9, 10\<close>: not
  in ascending lexicographic order.
\<close>

theorem addLabels_index_keys_not_sorted:
  "Object_keys (labelOverrides (addLabels 1 [(''9'', Some ''a''), (''10'', Some ''b'')] tree_root) 1)
     = [''9'', ''10''] \<and>
   sort [''9'', ''10''] = [''10'', ''9''] \<and>
   \<not> sorted (Object_keys
       (labelOverrides (addLabels 1 [(''9'', Some ''a''), (''10'', Some ''b'')] tree_root) 1))"
  by code_simp

text \<open>
  X1. Where no key, stored or given, is an array index, \<open>addLabels\<close> leaves the keys
  of the stored overrides in strictly ascending order.
\<close>

theorem addLabels_sorts_plain_keys:
  assumes "m < length t"
    and "\<forall>k \<in> set (Object_keys (labelOverrides t m)) \<union> set (Object_keys ls). array_index k = None"
  shows "sorted (Object_keys (labelOverrides (addLabels m ls t) m)) \<and>
         distinct (Object_keys (labelOverrides (addLabels m ls t) m))"
proof -
  let ?obj = "spread (spread [] (labelOverrides t m)) ls"
  have d: "distinct (Object_keys ?obj)"
    by (simp add: Object_keys_def distinct_spread)
  have "set (Object_keys ?obj) = set (Object_keys (labelOverrides t m)) \<union> set (Object_keys ls)"
    by (simp add: Object_keys_def keys_spread)
  with assms(2) have "\<forall>k \<in> set (Object_keys ?obj). array_index k = None" by simp
  from keys_sortByKey_plain[OF this d]
  have keys: "Object_keys (labelOverrides (addLabels m ls t) m)
      = filter (\<lambda>k. k \<noteq> ''__proto__'') (sort (Object_keys ?obj))"
    by (simp add: labelOverrides_addLabels[OF assms(1)])
  have "sorted (filter (\<lambda>k. k \<noteq> ''__proto__'') (sort (Object_keys ?obj)))"
    by (rule sorted_wrt_filter) simp
  moreover have "distinct (filter (\<lambda>k. k \<noteq> ''__proto__'') (sort (Object_keys ?obj)))"
    using d by simp
  ultimately show ?thesis unfolding keys by simp
qed

text \<open>
  The keys \<^verbatim>\<open>zzzz\<close>, \<^verbatim>\<open>aaaa\<close> and then \<^verbatim>\<open>bbbb\<close> are stored as
  \<^verbatim>\<open>aaaa, bbbb, zzzz\<close>.
\<close>

theorem addLabels_sorts_plain_keys_witness:
  "Object_keys (labelOverrides (addLabels 1 [(''bbbb'', Some ''value3'')]
      (addLabels 1 [(''zzzz'', Some ''value2''), (''aaaa'', Some ''value1'')] tree_root)) 1)
     = [''aaaa'', ''bbbb'', ''zzzz'']"
proof -
  let ?t = "addLabels 1 [(''zzzz'', Some ''value2''), (''aaaa'', Some ''value1'')] tree_root"
  have a: "1 < length ?t" by code_simp
  have b: "\<forall>k \<in> set (Object_keys (labelOverrides ?t 1)) \<union> set (Object_keys [(''bbbb'', Some ''value3'')]).
             array_index k = None" by code_simp
  have c: "Object_keys (labelOverrides (addLabels 1 [(''bbbb'', Some ''value3'')] ?t) 1)
     = [''aaaa'', ''bbbb'', ''zzzz'']" by code_simp
  from addLabels_sorts_plain_keys[OF a b] c show ?thesis by simp
qed

text \<open>
  X2. The order in which a record stores its overrides has no effect on the mapping that
  \<open>resolveLabels\<close> returns: storing the same entries in another order leaves the
  resolved mapping of every scope as it was.
\<close>

theorem resolveLabels_ignores_stored_order:
  assumes "wf_tree t" and "m < length t" and "r < length t"
    and "distinct (Object_keys ls)" and "distinct (Object_keys (labelOverrides t m))"
    and "set ls = set (labelOverrides t m)"
  shows "\<exists>a b. resolveLabels (Some r) t = Some (a, t) \<and>
               resolveLabels (Some r) (t[m := (t ! m)\<lparr>labels := Some ls\<rparr>])
                 = Some (b, t[m := (t ! m)\<lparr>labels := Some ls\<rparr>]) \<and>
               map_of a = map_of b"
proof -
  let ?t = "t[m := (t ! m)\<lparr>labels := Some ls\<rparr>]"
  have shape: "length ?t = length t" "\<And>s. scope (?t ! s) = scope (t ! s)"
    "\<And>s. children (?t ! s) = children (t ! s)"
    by (simp_all add: children_list_update_field)
  then have wf': "wf_tree ?t" using assms(1) by (simp add: wf_tree_def)
  have att: "attached_record ?t s = attached_record t s" for s
    by (simp add: attached_record_def tryFindChild_def shape)
  from assms(4-6) have "map_of ls = map_of (labelOverrides t m)"
    by (simp add: Object_keys_def map_of_inject_set)
  with assms(4,5) have rev: "map_of (rev ls) = map_of (rev (labelOverrides t m))"
    by (simp add: Object_keys_def map_of_rev_distinct)
  have stored: "labelOverrides ?t m = ls" using assms(2) by (simp add: labelOverrides_def)
  have same: "overlay M (labelOverrides ?t m) = overlay M (labelOverrides t m)" for M
    unfolding stored using rev by (rule overlay_cong_map)
  have other: "labelOverrides ?t m' = labelOverrides t m'" if "m' \<noteq> m" for m'
    using that by (simp add: labelOverrides_def)
  have own: "overlay M (own_overrides ?t s) = overlay M (own_overrides t s)" for M s
  proof (cases "attached_record t s")
    case None
    then show ?thesis by (simp add: own_overrides_def att)
  next
    case (Some m')
    then show ?thesis using same other by (cases "m' = m") (simp_all add: own_overrides_def att)
  qed
  from assms(1) wf' shape(1,2) own assms(3) show ?thesis
    by (rule resolveLabels_cong)
qed

text \<open>
  The overrides \<^verbatim>\<open>a: '1', b: '2'\<close> of the root, stored as \<^verbatim>\<open>b, a\<close> instead.
\<close>

theorem resolveLabels_ignores_stored_order_witness:
  "resolveLabels (Some 0) (addLabels 1 [(''b'', Some ''2''), (''a'', Some ''1'')] tree_root)
     = Some ([(''a'', ''1''), (''b'', ''2'')],
             addLabels 1 [(''b'', Some ''2''), (''a'', Some ''1'')] tree_root) \<and>
   map_of [(''a'', ''1''), (''b'', ''2'')] = map_of [(''b'', ''2''), (''a'', ''1'')]"
proof -
  let ?t = "addLabels 1 [(''b'', Some ''2''), (''a'', Some ''1'')] tree_root"
  let ?ls = "[(''b'', Some ''2''), (''a'', Some ''1'')]"
  have h: "wf_tree ?t" "1 < length ?t" "0 < length ?t" "distinct (Object_keys ?ls)"
    "distinct (Object_keys (labelOverrides ?t 1))" "set ?ls = set (labelOverrides ?t 1)"
    by code_simp+
  have a: "resolveLabels (Some 0) ?t = Some ([(''a'', ''1''), (''b'', ''2'')], ?t)"
    by code_simp
  have b: "resolveLabels (Some 0) (?t[1 := (?t ! 1)\<lparr>labels := Some ?ls\<rparr>])
    = Some ([(''b'', ''2''), (''a'', ''1'')], ?t[1 := (?t ! 1)\<lparr>labels := Some ?ls\<rparr>])"
    by code_simp
  from resolveLabels_ignores_stored_order[OF h] a b show ?thesis by simp
qed

subsection \<open>The two formulations of label resolution\<close>

text \<open>
  C9. On a well-formed tree, \<open>resolveLabels\<close>, which overlays the labels of the nearest
  record found by \<open>lookupMetadata\<close>, and the variant that overlays only the record
  attached directly to the scope both return, and they return the same mapping.
\<close>

theorem resolveLabels_lookup_equals_direct:
  assumes "wf_tree t" and "r < length t"
  shows "\<exists>a b. resolveLabels (Some r) t = Some (a, t) \<and>
               resolveLabels_direct (Some r) t = Some (b, t) \<and> map_of a = map_of b"
  using assms
proof (induction r rule: less_induct)
  case (less r)
  from resolveLabels_main[OF less.prems] obtain a ia where
    a: "resolveLabels (Some r) t = Some (a, t)" "resolveLabels (scope (t ! r)) t = Some (ia, t)"
    "map_of a = overlay (map_of ia) (own_overrides t r)"
    by (elim exE conjE)
  from resolveLabels_direct_main[OF less.prems] obtain b ib where
    b: "resolveLabels_direct (Some r) t = Some (b, t)"
    "resolveLabels_direct (scope (t ! r)) t = Some (ib, t)"
    "map_of b = overlay (map_of ib) (own_overrides t r)"
    by (elim exE conjE)
  have "map_of ia = map_of ib"
  proof (cases "scope (t ! r)")
    case None
    with a(2) b(2) show ?thesis
      by (simp add: resolveLabels_None resolveLabels_direct_None)
  next
    case (Some p)
    with less.prems have "p < r" by (auto dest: wf_parent)
    with less.prems have "p < length t" by simp
    from less.IH[OF \<open>p < r\<close> less.prems(1) this] Some a(2) b(2) show ?thesis by auto
  qed
  with a(3) b(3) have "map_of a = map_of b" by simp
  with a(1) b(1) show ?case by (intro exI conjI)
qed

text \<open>
  The record of \<^verbatim>\<open>parent\<close> overrides the label \<^verbatim>\<open>k\<close> of the root. The scope
  \<^verbatim>\<open>child\<close> has no record: the code overlays the labels of the record of
  \<^verbatim>\<open>parent\<close> once more, the variant overlays nothing, and both resolve to the value of
  \<^verbatim>\<open>parent\<close>, as they do for \<^verbatim>\<open>parent\<close> itself.
\<close>

theorem resolveLabels_lookup_equals_direct_witness:
  "resolveLabels (Some 2) (addLabels 4 [(''k'', Some ''p'')] tree_labels)
     = Some ([(''k'', ''p'')], addLabels 4 [(''k'', Some ''p'')] tree_labels) \<and>
   resolveLabels_direct (Some 2) (addLabels 4 [(''k'', Some ''p'')] tree_labels)
     = Some ([(''k'', ''p'')], addLabels 4 [(''k'', Some ''p'')] tree_labels) \<and>
   resolveLabels (Some 1) (addLabels 4 [(''k'', Some ''p'')] tree_labels)
     = Some ([(''k'', ''p'')], addLabels 4 [(''k'', Some ''p'')] tree_labels) \<and>
   resolveLabels_direct (Some 1) (addLabels 4 [(''k'', Some ''p'')] tree_labels)
     = Some ([(''k'', ''p'')], addLabels 4 [(''k'', Some ''p'')] tree_labels) \<and>
   resolveLabels (Some 0) (addLabels 4 [(''k'', Some ''p'')] tree_labels)
     = Some ([(''k'', ''v'')], addLabels 4 [(''k'', Some ''p'')] tree_labels) \<and>
   own_overrides (addLabels 4 [(''k'', Some ''p'')] tree_labels) 2 = [] \<and>
   nearest_overrides (addLabels 4 [(''k'', Some ''p'')] tree_labels) 2 = [(''k'', Some ''p'')]"
proof -
  let ?t = "addLabels 4 [(''k'', Some ''p'')] tree_labels"
  have wf: "wf_tree ?t" by (simp add: wf_tree_addLabels wf_tree_labels)
  have len: "2 < length ?t" "1 < length ?t" by code_simp+
  have a: "resolveLabels (Some 2) ?t = Some ([(''k'', ''p'')], ?t)"
    "resolveLabels (Some 1) ?t = Some ([(''k'', ''p'')], ?t)"
    "resolveLabels (Some 0) ?t = Some ([(''k'', ''v'')], ?t)"
    by code_simp+
  have c: "own_overrides ?t 2 = []" "nearest_overrides ?t 2 = [(''k'', Some ''p'')]"
    by code_simp+
  from resolveLabels_lookup_equals_direct[OF wf len(1)] a(1)
  obtain b2 where b2: "resolveLabels_direct (Some 2) ?t = Some (b2, ?t)"
    "map_of [(''k'', ''p'')] = map_of b2" by auto
  from resolveLabels_lookup_equals_direct[OF wf len(2)] a(2)
  obtain b1 where b1: "resolveLabels_direct (Some 1) ?t = Some (b1, ?t)"
    "map_of [(''k'', ''p'')] = map_of b1" by auto
  have d: "resolveLabels_direct (Some 2) ?t = Some ([(''k'', ''p'')], ?t)"
    "resolveLabels_direct (Some 1) ?t = Some ([(''k'', ''p'')], ?t)"
    by code_simp+
  from a c d b1 b2 show ?thesis by simp
qed

subsection \<open>The empty string is never returned\<close>

text \<open>
  C10. \<open>resolveNamespace\<close> never returns the empty string: whenever it returns, on any
  store, the value is absent or a string that is not empty; and on a well-formed tree it
  returns for every scope.
\<close>

theorem resolveNamespace_never_empty_string:
  "(\<forall>v t'. resolveNamespace sc t = Some (v, t') \<longrightarrow> v \<noteq> Some '''') \<and>
   (wf_tree t \<longrightarrow> r < length t \<longrightarrow>
      (\<exists>v. resolveNamespace (Some r) t = Some (v, t) \<and> v \<noteq> Some ''''))"
proof (intro conjI allI impI)
  fix v t'
  assume "resolveNamespace sc t = Some (v, t')"
  then show "v \<noteq> Some ''''" by (rule resolveNamespace_never_empty)
next
  assume "wf_tree t" "r < length t"
  then have eq: "resolveNamespace (Some r) t = Some (spec_resolve_namespace t r, t)"
    by (rule resolveNamespace_spec)
  then have "spec_resolve_namespace t r \<noteq> Some ''''" by (rule resolveNamespace_never_empty)
  with eq show "\<exists>v. resolveNamespace (Some r) t = Some (v, t) \<and> v \<noteq> Some ''''" by blast
qed

text \<open>
  The record of \<^verbatim>\<open>parent\<close> stores the empty string, and \<^verbatim>\<open>parent\<close> resolves to
  absent.
\<close>

theorem resolveNamespace_never_empty_string_witness:
  "resolveNamespace (Some 1) tree_namespaces = Some (None, tree_namespaces) \<and>
   namespace (tree_namespaces ! 4) = Some '''' \<and>
   (\<exists>v. resolveNamespace (Some 2) tree_namespaces = Some (v, tree_namespaces) \<and> v \<noteq> Some '''')"
proof -
  have len: "2 < length tree_namespaces" by (simp add: tree_namespaces_def)
  have a: "resolveNamespace (Some 1) tree_namespaces = Some (None, tree_namespaces)"
    by code_simp
  have b: "namespace (tree_namespaces ! 4) = Some ''''" by (simp add: tree_namespaces_def)
  from resolveNamespace_never_empty_string[of "Some 2" tree_namespaces 2] wf_tree_namespaces len
  have "\<exists>v. resolveNamespace (Some 2) tree_namespaces = Some (v, tree_namespaces) \<and> v \<noteq> Some ''''"
    by blast
  with a b show ?thesis by blast
qed

end
